theory Spec2Isabelle
  imports Main "HOL-Library.Finite_Map"
begin

section \<open>Text: the string operations of the ETL package\<close>

text \<open>
  A Python \<open>str\<close> is modelled as a \<open>string\<close>, a list of 8-bit characters: the text whose
  code points lie in U+0000..U+00FF, every character being its code point. On this text
  the operations below are those of Python 3: \<open>str.isspace\<close> (which \<open>str.strip\<close> and the
  class \<open>\s\<close> of \<open>re\<close> follow), \<open>str.lower\<close>, and what
  \<open>unicodedata.normalize("NFKD", _).encode("ascii", "ignore")\<close> keeps of a text.
\<close>

definition ord :: "char \<Rightarrow> nat" where
  "ord c = of_char c"

text \<open>
  \<open>str.isspace\<close>: the ASCII white space, the separators U+001C..U+001F, the next-line
  control U+0085 and the no-break space U+00A0.
\<close>

definition is_space :: "char \<Rightarrow> bool" where
  "is_space c \<longleftrightarrow>
     (9 \<le> ord c \<and> ord c \<le> 13) \<or> (28 \<le> ord c \<and> ord c \<le> 32) \<or> ord c = 133 \<or> ord c = 160"

text \<open>The ranges \<open>A-Z\<close>, \<open>a-z\<close> and \<open>0-9\<close> of a regular expression, and the ASCII characters.\<close>

definition is_upper :: "char \<Rightarrow> bool" where
  "is_upper c \<longleftrightarrow> 65 \<le> ord c \<and> ord c \<le> 90"

definition is_lower :: "char \<Rightarrow> bool" where
  "is_lower c \<longleftrightarrow> 97 \<le> ord c \<and> ord c \<le> 122"

definition is_digit :: "char \<Rightarrow> bool" where
  "is_digit c \<longleftrightarrow> 48 \<le> ord c \<and> ord c \<le> 57"

definition is_ascii :: "char \<Rightarrow> bool" where
  "is_ascii c \<longleftrightarrow> ord c < 128"

text \<open>
  \<open>str.lower\<close>, character by character: \<open>A\<close>..\<open>Z\<close> and the capital letters U+00C0..U+00DE
  (the multiplication sign U+00D7 is not one) move up by 32; nothing else changes.
\<close>

definition lower_char :: "char \<Rightarrow> char" where
  "lower_char c =
     (if is_upper c \<or> (192 \<le> ord c \<and> ord c \<le> 222 \<and> ord c \<noteq> 215) then char_of (ord c + 32)
      else c)"

definition lower :: "string \<Rightarrow> string" where
  "lower s = map lower_char s"

definition strip :: "string \<Rightarrow> string" where
  "strip s = rev (dropWhile is_space (rev (dropWhile is_space s)))"

text \<open>
  \<open>unicodedata.normalize("NFKD", c).encode("ascii", "ignore").decode("ascii")\<close> for one
  character \<open>c\<close>. An ASCII character is its own decomposition. An accented letter
  decomposes into its base letter and a combining mark, and the mark is ignored. The
  no-break space and the spacing diaeresis, macron, acute and cedilla decompose into a
  space (and a mark); the ordinal indicators, the superscript digits and the fractions
  into letters and digits (the fraction slash U+2044 is ignored). Every other character
  (the C1 controls, the remaining signs, and the letters U+00C6, U+00D0, U+00D8, U+00DE,
  U+00DF, U+00E6, U+00F0, U+00F8, U+00FE, which have no decomposition, and the micro sign,
  which decomposes into a Greek letter) leaves nothing.
\<close>

definition nfkd_ascii :: "char \<Rightarrow> string" where
  "nfkd_ascii c =
     (let n = ord c
      in if n < 128 then [c]
         else if n = 160 \<or> n = 168 \<or> n = 175 \<or> n = 180 \<or> n = 184 then '' ''
         else if n = 170 \<or> (224 \<le> n \<and> n \<le> 229) then ''a''
         else if n = 178 then ''2''
         else if n = 179 then ''3''
         else if n = 185 then ''1''
         else if n = 186 \<or> (242 \<le> n \<and> n \<le> 246) then ''o''
         else if n = 188 then ''14''
         else if n = 189 then ''12''
         else if n = 190 then ''34''
         else if 192 \<le> n \<and> n \<le> 197 then ''A''
         else if n = 199 then ''C''
         else if 200 \<le> n \<and> n \<le> 203 then ''E''
         else if 204 \<le> n \<and> n \<le> 207 then ''I''
         else if n = 209 then ''N''
         else if 210 \<le> n \<and> n \<le> 214 then ''O''
         else if 217 \<le> n \<and> n \<le> 220 then ''U''
         else if n = 221 then ''Y''
         else if n = 231 then ''c''
         else if 232 \<le> n \<and> n \<le> 235 then ''e''
         else if 236 \<le> n \<and> n \<le> 239 then ''i''
         else if n = 241 then ''n''
         else if 249 \<le> n \<and> n \<le> 252 then ''u''
         else if n = 253 \<or> n = 255 then ''y''
         else [])"

text \<open>
  The same for a text. Decomposition acts on every character by itself, and the
  canonical reordering that follows moves combining marks only, none of which is ASCII:
  what is kept of a text is what is kept of its characters, in order.
\<close>

definition nfkd_ascii_ignore :: "string \<Rightarrow> string" where
  "nfkd_ascii_ignore v = concat (map nfkd_ascii v)"

text \<open>\<open>re.sub(r"[^a-zA-Z0-9\s-]", "", _)\<close> keeps exactly these characters.\<close>

definition slug_keep :: "char \<Rightarrow> bool" where
  "slug_keep c \<longleftrightarrow> is_lower c \<or> is_upper c \<or> is_digit c \<or> is_space c \<or> c = CHR ''-''"

text \<open>\<open>[\s_-]\<close>: the separators that \<open>slugify\<close> collapses.\<close>

definition is_sep :: "char \<Rightarrow> bool" where
  "is_sep c \<longleftrightarrow> is_space c \<or> c = CHR ''_'' \<or> c = CHR ''-''"

text \<open>\<open>re.sub(r"[\s_-]+", "-", _)\<close>: every maximal run of separators becomes one hyphen.\<close>

function collapse :: "string \<Rightarrow> string" where
  "collapse [] = []"
| "collapse (c # cs) =
     (if is_sep c then CHR ''-'' # collapse (dropWhile is_sep cs) else c # collapse cs)"
  by pat_completeness auto
termination
  by (relation "measure length") (auto simp: le_imp_less_Suc length_dropWhile_le)

text \<open>\<open>slugify\<close> of \<open>utils.py\<close>, statement by statement.\<close>

definition slugify :: "string \<Rightarrow> string" where
  "slugify v =
     (let value_normalized = nfkd_ascii_ignore v;
          value_normalized = lower (strip (filter slug_keep value_normalized))
      in collapse value_normalized)"

text \<open>\<open>_normalize_alias\<close>: \<open>slugify(value) or value.strip().lower()\<close>.\<close>

definition normalize_alias :: "string \<Rightarrow> string" where
  "normalize_alias v = (let slug = slugify v in if slug \<noteq> [] then slug else lower (strip v))"

section \<open>Values and exceptions\<close>

text \<open>
  A finite double is the rational it denotes; the special values are separate. A cell is
  one value of a data-frame row or of a JSON record.
\<close>

datatype pyfloat = Finite rat | NaN | PosInf | NegInf

datatype cell = CInt int | CFloat pyfloat | CStr string | CNone

datatype py_error =
    ValueError
  | TypeError
  | AttributeError
  | OverflowError
  | OperationalError string

section \<open>Month tokens and dates\<close>

definition month_lookup :: "(string \<times> int) list" where
  "month_lookup =
     [(''jan'', 1), (''feb'', 2), (''mar'', 3), (''apr'', 4), (''may'', 5), (''jun'', 6),
      (''jul'', 7), (''aug'', 8), (''sep'', 9), (''sept'', 9), (''oct'', 10), (''nov'', 11),
      (''dec'', 12)]"

text \<open>
  \<open>month_to_number\<close>: an \<open>int\<close> is returned as it is; a string is looked up by the first
  three characters of its stripped, lower-cased text; any other value has no \<open>strip\<close>.
\<close>

fun month_to_number :: "cell \<Rightarrow> py_error + int" where
  "month_to_number (CInt n) = Inr n"
| "month_to_number (CStr v) =
     (let value_clean = lower (strip v); key = take 3 value_clean
      in case map_of month_lookup key of
           None \<Rightarrow> Inl ValueError
         | Some m \<Rightarrow> Inr m)"
| "month_to_number _ = Inl AttributeError"

type_synonym date = "int \<times> int \<times> int"

text \<open>
  \<open>datetime(year, month, 1).date()\<close>: the arguments must fit a C \<open>int\<close>, the year must lie
  in 1..9999 and the month in 1..12.
\<close>

definition c_int :: "int \<Rightarrow> bool" where
  "c_int n \<longleftrightarrow> - 2147483648 \<le> n \<and> n \<le> 2147483647"

definition first_of_month :: "int \<Rightarrow> int \<Rightarrow> py_error + date" where
  "first_of_month y m =
     (if \<not> (c_int y \<and> c_int m) then Inl OverflowError
      else if y < 1 \<or> 9999 < y then Inl ValueError
      else if m < 1 \<or> 12 < m then Inl ValueError
      else Inr (y, m, 1))"

section \<open>Decimal rendering and slug disambiguation\<close>

text \<open>\<open>str(n)\<close> for a natural number, as the f-string \<open>f"{slug}-{counter}"\<close> renders it.\<close>

definition digit_char :: "nat \<Rightarrow> char" where
  "digit_char d = ''0123456789'' ! d"

function str_nat :: "nat \<Rightarrow> string" where
  "str_nat n = (if n < 10 then [digit_char n] else str_nat (n div 10) @ [digit_char (n mod 10)])"
  by pat_completeness auto
termination
  by (relation "measure id") auto

declare str_nat.simps [simp del]

definition dec_val :: "string \<Rightarrow> nat" where
  "dec_val s = foldl (\<lambda>a c. 10 * a + (ord c - 48)) 0 s"

lemma ord_digit_char: "d < 10 \<Longrightarrow> ord (digit_char d) - 48 = d"
proof -
  assume "d < 10"
  then consider "d = 0" | "d = 1" | "d = 2" | "d = 3" | "d = 4"
    | "d = 5" | "d = 6" | "d = 7" | "d = 8" | "d = 9"
    by atomize_elim arith
  then show ?thesis by cases (simp_all add: ord_def digit_char_def)
qed

lemma dec_val_str_nat: "dec_val (str_nat n) = n"
proof (induction n rule: str_nat.induct)
  case (1 n)
  show ?case
  proof (cases "n < 10")
    case True
    then show ?thesis by (subst str_nat.simps) (simp add: dec_val_def ord_digit_char)
  next
    case False
    with 1 have "dec_val (str_nat (n div 10)) = n div 10" by simp
    with False show ?thesis
      by (subst str_nat.simps) (simp add: dec_val_def ord_digit_char)
  qed
qed

lemma str_nat_inj: "str_nat a = str_nat b \<Longrightarrow> a = b"
  by (metis dec_val_str_nat)

definition suffixed :: "string \<Rightarrow> nat \<Rightarrow> string" where
  "suffixed slug counter = slug @ ''-'' @ str_nat counter"

lemma suffixed_inj: "suffixed s a = suffixed s b \<Longrightarrow> a = b"
  by (simp add: suffixed_def str_nat_inj)

text \<open>
  The keys of a dictionary that a later round of the disambiguation loop can still hit;
  the dictionary is finite, which is why the loop ends.
\<close>

definition pending :: "(string, 'v) fmap \<Rightarrow> string \<Rightarrow> nat \<Rightarrow> string set" where
  "pending idx slug counter = {k \<in> fmdom' idx. \<exists>c>counter. k = suffixed slug c}"

lemma pending_step:
  "pending idx slug counter =
     (if suffixed slug (Suc counter) \<in> fmdom' idx
      then insert (suffixed slug (Suc counter)) (pending idx slug (Suc counter))
      else pending idx slug (Suc counter))"
proof -
  have "(\<exists>c>counter. k = suffixed slug c) \<longleftrightarrow>
        k = suffixed slug (Suc counter) \<or> (\<exists>c>Suc counter. k = suffixed slug c)" for k
    by (metis Suc_lessI Suc_lessD lessI)
  then show ?thesis
    unfolding pending_def by auto
qed

lemma pending_fresh: "suffixed slug (Suc counter) \<notin> pending idx slug (Suc counter)"
  by (auto simp: pending_def dest: suffixed_inj)

lemma finite_pending: "finite (pending idx slug counter)"
  by (simp add: pending_def)

lemma card_pending:
  "card (pending idx slug counter) =
     (if suffixed slug (Suc counter) \<in> fmdom' idx then 1 else 0)
       + card (pending idx slug (Suc counter))"
  by (subst pending_step) (simp add: pending_fresh finite_pending)

text \<open>
  The \<open>while candidate in index\<close> loop shared by \<open>_unique_item_slug\<close> and
  \<open>_unique_region_code\<close>: the loop variables are \<open>candidate\<close> and \<open>counter\<close>.
\<close>

function unique_loop :: "(string, 'v) fmap \<Rightarrow> string \<Rightarrow> string \<Rightarrow> nat \<Rightarrow> string" where
  "unique_loop idx slug candidate counter =
     (if candidate \<in> fmdom' idx
      then unique_loop idx slug (suffixed slug (Suc counter)) (Suc counter)
      else candidate)"
  by pat_completeness auto
termination
proof (relation "measure (\<lambda>(idx, slug, candidate, counter).
        (if candidate \<in> fmdom' idx then 1 else 0) + card (pending idx slug counter))")
  show "wf (measure (\<lambda>(idx :: (string, 'v) fmap, slug, candidate, counter).
        (if candidate \<in> fmdom' idx then 1 else 0) + card (pending idx slug counter)))"
    by simp
next
  fix idx :: "(string, 'v) fmap" and slug candidate :: string and counter :: nat
  assume "candidate \<in> fmdom' idx"
  then show "((idx, slug, suffixed slug (Suc counter), Suc counter), idx, slug, candidate, counter)
      \<in> measure (\<lambda>(idx, slug, candidate, counter).
        (if candidate \<in> fmdom' idx then 1 else 0) + card (pending idx slug counter))"
    using card_pending [of idx slug counter] by simp
qed

declare unique_loop.simps [simp del]

section \<open>The tables\<close>

text \<open>
  The rows of \<open>items\<close>, \<open>regions\<close>, \<open>raw_series\<close> and \<open>etl_runs\<close> in table order. The
  \<open>series\<close> table is the finite map from its unique key (item id, region id, date) to the
  index value. The stored value is \<open>Decimal(str(v))\<close>, a function of the float \<open>v\<close> alone;
  the model keeps \<open>v\<close>. Serial keys that the pipeline never reads are left out.
\<close>

record item =
  item_id :: nat
  slug :: string
  canonical_name :: string
  aliases :: "string list"

record region =
  region_id :: nat
  code :: string
  name :: string
  rtype :: string

record raw_row =
  source_file :: string
  raw_item_alias :: string
  raw_region_alias :: string
  raw_year :: int
  raw_month :: int
  raw_value :: pyfloat

record etl_run =
  run_id :: string
  started_at :: nat
  finished_at :: nat
  run_status :: string
  checksum :: string
  log :: string

type_synonym fact_key = "nat \<times> nat \<times> date"

record database =
  items_table :: "item list"
  regions_table :: "region list"
  raw_series_table :: "raw_row list"
  series_table :: "(fact_key, pyfloat) fmap"
  etl_runs_table :: "etl_run list"

definition empty_database :: database where
  "empty_database =
     \<lparr>items_table = [], regions_table = [], raw_series_table = [],
      series_table = fmempty, etl_runs_table = []\<rparr>"

text \<open>A serial primary key on a table that is never deleted from: one more than the largest.\<close>

definition next_id :: "nat list \<Rightarrow> nat" where
  "next_id ids = Suc (foldr max ids 0)"

section \<open>DimensionManager\<close>

text \<open>
  The dictionaries of the manager hold references to shared record objects. The model
  keeps the records in the store \<open>items\<close> (\<open>regions\<close>), addressed by the key under which
  \<open>self.items\<close> holds them, and the indices hold addresses, so that an update of a record
  is seen through every index. \<open>conn\<close> is the state of the database seen through the
  connection.
\<close>

record dimension_manager =
  conn :: database
  items :: "(nat, item) fmap"
  item_alias_index :: "(string, nat) fmap"
  slug_index :: "(string, nat) fmap"
  regions :: "(nat, region) fmap"
  region_alias_index :: "(string, nat) fmap"
  region_code_index :: "(string, nat) fmap"

definition register_item_alias :: "nat \<Rightarrow> string \<Rightarrow> dimension_manager \<Rightarrow> dimension_manager" where
  "register_item_alias record alias dm =
     (let token = normalize_alias alias
      in dm\<lparr>item_alias_index := fmupd token record (item_alias_index dm)\<rparr>)"

definition register_region_alias :: "nat \<Rightarrow> string \<Rightarrow> dimension_manager \<Rightarrow> dimension_manager" where
  "register_region_alias record alias dm =
     (let token = normalize_alias alias
      in dm\<lparr>region_alias_index := fmupd token record (region_alias_index dm)\<rparr>)"

definition load_item :: "dimension_manager \<Rightarrow> item \<Rightarrow> dimension_manager" where
  "load_item dm row =
     (let dm = dm\<lparr>items := fmupd (item_id row) row (items dm)\<rparr>;
          dm = dm\<lparr>slug_index := fmupd (slug row) (item_id row) (slug_index dm)\<rparr>;
          dm = register_item_alias (item_id row) (slug row) dm;
          dm = register_item_alias (item_id row) (canonical_name row) dm
      in foldl (\<lambda>dm alias. register_item_alias (item_id row) alias dm) dm (aliases row))"

definition load_items :: "dimension_manager \<Rightarrow> dimension_manager" where
  "load_items dm = foldl load_item dm (items_table (conn dm))"

definition load_region :: "dimension_manager \<Rightarrow> region \<Rightarrow> dimension_manager" where
  "load_region dm row =
     (let dm = dm\<lparr>regions := fmupd (region_id row) row (regions dm)\<rparr>;
          dm = dm\<lparr>region_code_index := fmupd (code row) (region_id row) (region_code_index dm)\<rparr>;
          dm = register_region_alias (region_id row) (code row) dm
      in register_region_alias (region_id row) (name row) dm)"

definition load_regions :: "dimension_manager \<Rightarrow> dimension_manager" where
  "load_regions dm = foldl load_region dm (regions_table (conn dm))"

text \<open>\<open>DimensionManager(conn)\<close>: the constructor.\<close>

definition DimensionManager :: "database \<Rightarrow> dimension_manager" where
  "DimensionManager c =
     load_regions (load_items
       \<lparr>conn = c, items = fmempty, item_alias_index = fmempty, slug_index = fmempty,
        regions = fmempty, region_alias_index = fmempty, region_code_index = fmempty\<rparr>)"

definition unique_item_slug :: "dimension_manager \<Rightarrow> string \<Rightarrow> string" where
  "unique_item_slug dm base_slug =
     (let slug = (if base_slug \<noteq> [] then base_slug else ''item'')
      in unique_loop (slug_index dm) slug slug 1)"

definition unique_region_code :: "dimension_manager \<Rightarrow> string \<Rightarrow> string" where
  "unique_region_code dm base_code =
     (let code = (if base_code \<noteq> [] then base_code else ''region'')
      in unique_loop (region_code_index dm) code code 1)"

text \<open>\<open>self.item_alias_index.get(token)\<close>: the address and the record it refers to.\<close>

definition get_item :: "dimension_manager \<Rightarrow> string \<Rightarrow> (nat \<times> item) option" where
  "get_item dm token =
     (case fmlookup (item_alias_index dm) token of
        None \<Rightarrow> None
      | Some a \<Rightarrow> (case fmlookup (items dm) a of None \<Rightarrow> None | Some r \<Rightarrow> Some (a, r)))"

definition get_region :: "dimension_manager \<Rightarrow> string \<Rightarrow> (nat \<times> region) option" where
  "get_region dm token =
     (case fmlookup (region_alias_index dm) token of
        None \<Rightarrow> None
      | Some a \<Rightarrow> (case fmlookup (regions dm) a of None \<Rightarrow> None | Some r \<Rightarrow> Some (a, r)))"

text \<open>\<open>UPDATE items SET aliases = ... WHERE id = ...\<close>\<close>

definition update_item_aliases :: "nat \<Rightarrow> string list \<Rightarrow> database \<Rightarrow> database" where
  "update_item_aliases i new db =
     db\<lparr>items_table := map (\<lambda>row. if item_id row = i then row\<lparr>aliases := new\<rparr> else row)
                          (items_table db)\<rparr>"

definition append_item_alias_if_needed ::
    "nat \<times> item \<Rightarrow> string \<Rightarrow> dimension_manager \<Rightarrow> dimension_manager" where
  "append_item_alias_if_needed ar alias dm =
     (let (a, record) = ar;
          token = normalize_alias alias;
          existing_tokens = set (map normalize_alias (aliases record))
      in if token \<in> existing_tokens then dm
         else
           let updated_aliases = aliases record @ [alias];
               dm = dm\<lparr>conn := update_item_aliases (item_id record) updated_aliases (conn dm)\<rparr>;
               dm = dm\<lparr>items := fmupd a (record\<lparr>aliases := updated_aliases\<rparr>) (items dm)\<rparr>
           in register_item_alias a alias dm)"

text \<open>\<open>INSERT INTO items ... RETURNING id\<close>\<close>

definition insert_item :: "string \<Rightarrow> string \<Rightarrow> string list \<Rightarrow> database \<Rightarrow> nat \<times> database" where
  "insert_item s cn al db =
     (let i = next_id (map item_id (items_table db))
      in (i, db\<lparr>items_table := items_table db
                   @ [\<lparr>item_id = i, slug = s, canonical_name = cn, aliases = al\<rparr>]\<rparr>))"

definition insert_region :: "string \<Rightarrow> string \<Rightarrow> string \<Rightarrow> database \<Rightarrow> nat \<times> database" where
  "insert_region c n t db =
     (let i = next_id (map region_id (regions_table db))
      in (i, db\<lparr>regions_table := regions_table db
                   @ [\<lparr>region_id = i, code = c, name = n, rtype = t\<rparr>]\<rparr>))"

definition create_item :: "string \<Rightarrow> string \<Rightarrow> dimension_manager \<Rightarrow> nat \<times> dimension_manager" where
  "create_item slug_candidate alias dm =
     (let slug = unique_item_slug dm slug_candidate;
          (item_id, db) = insert_item slug alias [alias] (conn dm);
          record = \<lparr>item_id = item_id, slug = slug, canonical_name = alias, aliases = [alias]\<rparr>;
          dm = dm\<lparr>conn := db\<rparr>;
          dm = dm\<lparr>items := fmupd item_id record (items dm)\<rparr>;
          dm = dm\<lparr>slug_index := fmupd slug item_id (slug_index dm)\<rparr>;
          dm = register_item_alias item_id slug dm;
          dm = register_item_alias item_id alias dm
      in (item_id, dm))"

definition ensure_item :: "string \<Rightarrow> dimension_manager \<Rightarrow> nat \<times> dimension_manager" where
  "ensure_item alias dm =
     (let token = normalize_alias alias
      in case get_item dm token of
           Some (a, record) \<Rightarrow> (item_id record, append_item_alias_if_needed (a, record) alias dm)
         | None \<Rightarrow>
             let slug_candidate = slugify alias;
                 token_from_slug = normalize_alias slug_candidate
             in case get_item dm token_from_slug of
                  Some (a, record) \<Rightarrow>
                    (item_id record, append_item_alias_if_needed (a, record) alias dm)
                | None \<Rightarrow> create_item slug_candidate alias dm)"

definition ensure_region :: "string \<Rightarrow> dimension_manager \<Rightarrow> nat \<times> dimension_manager" where
  "ensure_region alias dm =
     (let token = normalize_alias alias
      in case get_region dm token of
           Some (a, record) \<Rightarrow> (region_id record, dm)
         | None \<Rightarrow>
             let code_candidate = slugify alias;
                 code = unique_region_code dm code_candidate;
                 (region_id, db) = insert_region code alias ''unknown'' (conn dm);
                 record = \<lparr>region_id = region_id, code = code, name = alias, rtype = ''unknown''\<rparr>;
                 dm = dm\<lparr>conn := db\<rparr>;
                 dm = dm\<lparr>regions := fmupd region_id record (regions dm)\<rparr>;
                 dm = dm\<lparr>region_code_index := fmupd code region_id (region_code_index dm)\<rparr>;
                 dm = register_region_alias region_id code dm;
                 dm = register_region_alias region_id alias dm
             in (region_id, dm))"

section \<open>Region type inference\<close>

text \<open>\<open>needle in haystack\<close> on strings.\<close>

fun contains :: "string \<Rightarrow> string \<Rightarrow> bool" where
  "contains needle [] = (needle = [])"
| "contains needle (c # cs) = (take (length needle) (c # cs) = needle \<or> contains needle cs)"

definition infer_region_type :: "string \<Rightarrow> string" where
  "infer_region_type alias =
     (let token = lower alias
      in if contains ''urban'' token then ''urban''
         else if contains ''rural'' token then ''rural''
         else if contains ''all india'' token \<or> contains ''india'' token then ''nation''
         else ''state'')"

section \<open>Resolving a list of labels\<close>

text \<open>
  The candidates that \<open>_unique_item_slug\<close> tries, in order: the base slug, then the base
  slug with the suffixes 2, 3, ...
\<close>

definition nth_candidate :: "string \<Rightarrow> nat \<Rightarrow> string" where
  "nth_candidate base k = (if k = 1 then base else suffixed base k)"

text \<open>The item side of the row loop of \<open>ingest_with_engine\<close>: one \<open>ensure_item\<close> per label.\<close>

fun ensure_items :: "string list \<Rightarrow> dimension_manager \<Rightarrow> nat list \<times> dimension_manager" where
  "ensure_items [] dm = ([], dm)"
| "ensure_items (a # as) dm =
     (let (i, dm) = ensure_item a dm; (is, dm) = ensure_items as dm in (i # is, dm))"

text \<open>Both lookups of \<open>ensure_item\<close> miss, so that the label is created as a new item.\<close>

definition unseen_item :: "string \<Rightarrow> dimension_manager \<Rightarrow> bool" where
  "unseen_item alias dm \<longleftrightarrow>
     get_item dm (normalize_alias alias) = None
     \<and> get_item dm (normalize_alias (slugify alias)) = None"

fun all_new :: "string list \<Rightarrow> dimension_manager \<Rightarrow> bool" where
  "all_new [] dm = True"
| "all_new (a # as) dm = (unseen_item a dm \<and> all_new as (snd (ensure_item a dm)))"

text \<open>
  The slug index is the inverse of the slug field on the records of the manager, and
  every record of the manager has a row in the items table.
\<close>

definition slug_index_ok :: "dimension_manager \<Rightarrow> bool" where
  "slug_index_ok dm \<longleftrightarrow>
     (\<forall>a r. fmlookup (items dm) a = Some r \<longrightarrow> fmlookup (slug_index dm) (slug r) = Some a)
     \<and> fmdom' (items dm) \<subseteq> set (map item_id (items_table (conn dm)))"

section \<open>Alias tokens\<close>

text \<open>The characters a non-empty slug is made of.\<close>

definition slug_char :: "char \<Rightarrow> bool" where
  "slug_char c \<longleftrightarrow> is_lower c \<or> is_digit c \<or> c = CHR ''-''"

text \<open>
  The normalization rule in the words of the specification: case-fold, trim, strip
  diacritics, collapse every run of non-alphanumeric characters to a single hyphen. It is
  compared with \<open>normalize_alias\<close>, the rule of the code. A letter is what \<open>str.isalnum\<close>
  accepts; stripping the diacritics replaces an accented letter by its base letter.
\<close>

definition is_alnum :: "char \<Rightarrow> bool" where
  "is_alnum c \<longleftrightarrow>
     is_lower c \<or> is_upper c \<or> is_digit c
     \<or> ord c = 170 \<or> ord c = 178 \<or> ord c = 179 \<or> ord c = 181 \<or> ord c = 185 \<or> ord c = 186
     \<or> (188 \<le> ord c \<and> ord c \<le> 190) \<or> (192 \<le> ord c \<and> ord c \<noteq> 215 \<and> ord c \<noteq> 247)"

definition strip_diacritics :: "string \<Rightarrow> string" where
  "strip_diacritics v =
     concat (map (\<lambda>c. if 192 \<le> ord c \<and> nfkd_ascii c \<noteq> [] then nfkd_ascii c else [c]) v)"

function hyphenate :: "string \<Rightarrow> string" where
  "hyphenate [] = []"
| "hyphenate (c # cs) =
     (if \<not> is_alnum c then CHR ''-'' # hyphenate (dropWhile (\<lambda>c. \<not> is_alnum c) cs)
      else c # hyphenate cs)"
  by pat_completeness auto
termination
  by (relation "measure length") (auto simp: le_imp_less_Suc length_dropWhile_le)

definition spec_normalized_token :: "string \<Rightarrow> string" where
  "spec_normalized_token v = hyphenate (strip_diacritics (strip (lower v)))"

text \<open>After \<open>ensure_item a\<close> has returned \<open>i\<close>, the two lookups of \<open>a\<close> lead to \<open>i\<close>.\<close>

definition resolves_to :: "dimension_manager \<Rightarrow> string \<Rightarrow> nat \<Rightarrow> bool" where
  "resolves_to dm a i \<longleftrightarrow>
     (case get_item dm (normalize_alias a) of
        Some (ad, r) \<Rightarrow> item_id r = i
      | None \<Rightarrow>
          (case get_item dm (normalize_alias (slugify a)) of
             Some (ad, r) \<Rightarrow> item_id r = i
           | None \<Rightarrow> False))"

section \<open>The ingestion engine\<close>

text \<open>
  A parsed row as \<open>ingest_with_engine\<close> reads it. The rows of the later adapters extend
  this record with further fields.
\<close>

record base_row =
  item_alias :: string
  region_alias :: string
  year :: int
  month :: int
  index_value :: pyfloat

definition MAX_LOG_CHARS :: nat where
  "MAX_LOG_CHARS = 64 * 1024"

definition MAX_RETRIES :: nat where
  "MAX_RETRIES = 3"

definition RETRY_BASE_DELAY_SECONDS :: nat where
  "RETRY_BASE_DELAY_SECONDS = 2"

text \<open>
  What the program does not decide is an input: the readings of the clock, the identifiers
  drawn by \<open>uuid.uuid4\<close>, and the faults of the storage layer. The storage layer either
  carries the \<open>k\<close>-th \<open>engine.begin()\<close> block through or raises an
  \<open>OperationalError\<close>/\<open>DBAPIError\<close> at one point of it: when the block is entered, in the
  bulk insert of the raw rows, in a statement that resolves row \<open>j\<close>, in the upsert of row
  \<open>j\<close>, or at the commit. A block that raises is rolled back.
\<close>

datatype fault_point = AtBegin | AtRawInsert | AtResolve nat | AtUpsert nat | AtCommit

record env =
  clock :: "nat \<Rightarrow> nat"
  isoformat :: "nat \<Rightarrow> string"
  uuid4 :: "nat \<Rightarrow> string"
  fault :: "nat \<Rightarrow> (fault_point \<times> string) option"

text \<open>
  The world outside one call: the database, how many clock readings, transactions and
  identifiers have been used, the seconds slept and what the logger has printed.
\<close>

record world =
  db :: database
  clock_reads :: nat
  txn_count :: nat
  uuid_count :: nat
  slept :: "nat list"
  logger :: "(string \<times> string) list"

definition fault_at :: "(fault_point \<times> string) option \<Rightarrow> fault_point \<Rightarrow> py_error option" where
  "fault_at f p =
     (case f of
        None \<Rightarrow> None
      | Some (q, msg) \<Rightarrow> if q = p then Some (OperationalError msg) else None)"

text \<open>
  \<open>level.upper()\<close>: the levels that the engine passes are the words \<open>info\<close>, \<open>warning\<close>
  and \<open>error\<close>, on which \<open>str.upper\<close> moves \<open>a\<close>..\<open>z\<close> down by 32.
\<close>

definition upper_char :: "char \<Rightarrow> char" where
  "upper_char c = (if is_lower c then char_of (ord c - 32) else c)"

definition upper :: "string \<Rightarrow> string" where
  "upper s = map upper_char s"

text \<open>\<open>sep.join(parts)\<close>\<close>

fun join :: "string \<Rightarrow> string list \<Rightarrow> string" where
  "join sep [] = []"
| "join sep [x] = x"
| "join sep (x # y # ys) = x @ sep @ join sep (y # ys)"

text \<open>The local function \<open>append_log\<close>: one clock reading, one entry, one logger call.\<close>

definition append_log ::
    "env \<Rightarrow> string \<Rightarrow> string \<Rightarrow> string list \<times> world \<Rightarrow> string list \<times> world" where
  "append_log e level formatted st =
     (let (log_entries, w) = st;
          now = clock e (clock_reads w);
          entry = isoformat e now @ '' ['' @ upper level @ ''] '' @ formatted
      in (log_entries @ [entry],
          w\<lparr>clock_reads := Suc (clock_reads w), logger := logger w @ [(level, formatted)]\<rparr>))"

definition raw_payload :: "string \<Rightarrow> 'a base_row_scheme list \<Rightarrow> raw_row list" where
  "raw_payload file_path rows =
     map (\<lambda>row. \<lparr>source_file = file_path, raw_item_alias = item_alias row,
                  raw_region_alias = region_alias row, raw_year = year row,
                  raw_month = month row, raw_value = index_value row\<rparr>) rows"

text \<open>\<open>INSERT INTO series ... ON CONFLICT (item_id, region_id, date) DO UPDATE\<close>\<close>

definition upsert_series :: "fact_key \<Rightarrow> pyfloat \<Rightarrow> database \<Rightarrow> database" where
  "upsert_series k v d = d\<lparr>series_table := fmupd k v (series_table d)\<rparr>"

text \<open>The loop \<open>for row in rows\<close> inside the transaction; \<open>k\<close> is the index of the row.\<close>

fun process_rows ::
    "(fault_point \<times> string) option \<Rightarrow> nat \<Rightarrow> 'a base_row_scheme list \<Rightarrow> dimension_manager
      \<Rightarrow> py_error + dimension_manager" where
  "process_rows f k [] dimensions = Inr dimensions"
| "process_rows f k (row # rows) dimensions =
     (case fault_at f (AtResolve k) of
        Some err \<Rightarrow> Inl err
      | None \<Rightarrow>
          let (item_id, dimensions) = ensure_item (item_alias row) dimensions;
              (region_id, dimensions) = ensure_region (region_alias row) dimensions
          in case first_of_month (year row) (month row) of
               Inl err \<Rightarrow> Inl err
             | Inr date_value \<Rightarrow>
                 (case fault_at f (AtUpsert k) of
                    Some err \<Rightarrow> Inl err
                  | None \<Rightarrow>
                      process_rows f (Suc k) rows
                        (dimensions\<lparr>conn := upsert_series (item_id, region_id, date_value)
                                                (index_value row) (conn dimensions)\<rparr>)))"

text \<open>
  One \<open>with engine.begin() as conn\<close> block of the retry loop. The database of the world
  changes only when the block commits.
\<close>

definition transaction ::
    "env \<Rightarrow> nat \<Rightarrow> string \<Rightarrow> 'a base_row_scheme list \<Rightarrow> string list \<times> world
      \<Rightarrow> py_error option \<times> string list \<times> world" where
  "transaction e attempt file_path rows st =
     (let (log_entries, w) = st;
          f = fault e (txn_count w);
          w = w\<lparr>txn_count := Suc (txn_count w)\<rparr>
      in case fault_at f AtBegin of
           Some err \<Rightarrow> (Some err, log_entries, w)
         | None \<Rightarrow>
             let (log_entries, w) =
                   append_log e ''info''
                     (''Inserting raw series rows (attempt '' @ str_nat attempt @ '')'')
                     (log_entries, w)
             in case fault_at f AtRawInsert of
                  Some err \<Rightarrow> (Some err, log_entries, w)
                | None \<Rightarrow>
                    let c = (db w)\<lparr>raw_series_table :=
                               raw_series_table (db w) @ raw_payload file_path rows\<rparr>;
                        dimensions = DimensionManager c
                    in case process_rows f 0 rows dimensions of
                         Inl err \<Rightarrow> (Some err, log_entries, w)
                       | Inr dimensions \<Rightarrow>
                           let (log_entries, w) =
                                 append_log e ''info''
                                   (''Upserted '' @ str_nat (length rows) @ '' series rows'')
                                   (log_entries, w)
                           in case fault_at f AtCommit of
                                Some err \<Rightarrow> (Some err, log_entries, w)
                              | None \<Rightarrow> (None, log_entries, w\<lparr>db := conn dimensions\<rparr>))"

text \<open>
  The retry branch of the \<open>except\<close> clause: compute the wait, log the warning, dispose of
  the engine's connections (no effect on the modelled state) and sleep.
\<close>

definition retry_after ::
    "env \<Rightarrow> nat \<Rightarrow> string \<Rightarrow> string list \<times> world \<Rightarrow> string list \<times> world" where
  "retry_after e attempt transient_error st =
     (let wait_time = min (RETRY_BASE_DELAY_SECONDS * attempt) 10;
          (log_entries, w) =
            append_log e ''warning''
              (''Transient database error (attempt '' @ str_nat attempt @ ''/''
                 @ str_nat MAX_RETRIES @ ''): '' @ transient_error
                 @ ''. Retrying in '' @ str_nat wait_time @ '' seconds'') st
      in (log_entries, w\<lparr>slept := slept w @ [wait_time]\<rparr>))"

text \<open>
  The loop \<open>for attempt in range(1, MAX_RETRIES + 1)\<close>: a committed block leaves the loop,
  a storage error is retried after the sleep unless it is the last attempt, any other
  exception propagates at once.
\<close>

function attempts ::
    "env \<Rightarrow> string \<Rightarrow> 'a base_row_scheme list \<Rightarrow> nat \<Rightarrow> string list \<times> world
      \<Rightarrow> py_error option \<times> string list \<times> world" where
  "attempts e file_path rows attempt st =
     (if MAX_RETRIES < attempt then (None, st)
      else
        case transaction e attempt file_path rows st of
          (None, st) \<Rightarrow> (None, st)
        | (Some (OperationalError transient_error), st) \<Rightarrow>
            if attempt = MAX_RETRIES then
              (Some (OperationalError transient_error),
               append_log e ''error''
                 (''Database operation failed after '' @ str_nat attempt @ '' attempts: ''
                    @ transient_error) st)
            else
              attempts e file_path rows (Suc attempt) (retry_after e attempt transient_error st)
        | (Some err, st) \<Rightarrow> (Some err, st))"
  by pat_completeness auto
termination
  by (relation "measure (\<lambda>(e, file_path, rows, attempt, st). Suc MAX_RETRIES - attempt)") auto

declare attempts.simps [simp del]

text \<open>The local function \<open>record_run\<close>: a failure of its own block is logged and swallowed.\<close>

definition record_run ::
    "env \<Rightarrow> string \<Rightarrow> nat \<Rightarrow> string \<Rightarrow> string \<Rightarrow> string list \<times> world \<Rightarrow> world" where
  "record_run e rid started cks final_status st =
     (let (log_entries, w) = st;
          finished = clock e (clock_reads w);
          w = w\<lparr>clock_reads := Suc (clock_reads w)\<rparr>;
          log_text = join [CHR 0x0A] log_entries;
          truncated_log = take MAX_LOG_CHARS log_text;
          f = fault e (txn_count w);
          w = w\<lparr>txn_count := Suc (txn_count w)\<rparr>
      in case f of
           Some (p, run_exc) \<Rightarrow>
             w\<lparr>logger := logger w
                  @ [(''error'', ''Failed to record ETL run metadata: '' @ run_exc)]\<rparr>
         | None \<Rightarrow>
             w\<lparr>db := (db w)\<lparr>etl_runs_table := etl_runs_table (db w)
                  @ [\<lparr>run_id = rid, started_at = started, finished_at = finished,
                      run_status = final_status, checksum = cks, log = truncated_log\<rparr>]\<rparr>\<rparr>)"

text \<open>The body of the outer \<open>try\<close> of \<open>ingest_with_engine\<close>.\<close>

definition ingest_body ::
    "env \<Rightarrow> string \<Rightarrow> 'a base_row_scheme list \<Rightarrow> world
      \<Rightarrow> py_error option \<times> string list \<times> world" where
  "ingest_body e file_path rows w =
     (let st = append_log e ''info''
                 (''Starting database ingestion for '' @ str_nat (length rows) @ '' rows'')
                 ([], w)
      in case attempts e file_path rows 1 st of
           (None, st) \<Rightarrow> (None, append_log e ''info'' ''Database ingestion complete'' st)
         | (Some err, st) \<Rightarrow> (Some err, st))"

record ingest_result =
  result_run_id :: string
  result_status :: string
  rows_processed :: nat

text \<open>
  \<open>ingest_with_engine\<close>: \<open>status\<close> is \<open>failed\<close> exactly when an exception leaves the
  \<open>try\<close> body, \<open>record_run(status)\<close> runs in the \<open>finally\<close> clause, and the exception,
  if any, then reaches the caller.
\<close>

definition ingest_with_engine ::
    "env \<Rightarrow> string \<Rightarrow> 'a base_row_scheme list \<Rightarrow> string \<Rightarrow> world
      \<Rightarrow> (py_error + ingest_result) \<times> world" where
  "ingest_with_engine e file_path rows cks w =
     (let rid = uuid4 e (uuid_count w);
          w = w\<lparr>uuid_count := Suc (uuid_count w)\<rparr>;
          started = clock e (clock_reads w);
          w = w\<lparr>clock_reads := Suc (clock_reads w)\<rparr>;
          (raised, st) = ingest_body e file_path rows w;
          status = (if raised = None then ''success'' else ''failed'');
          w = record_run e rid started cks status st
      in case raised of
           Some err \<Rightarrow> (Inl err, w)
         | None \<Rightarrow>
             (Inr \<lparr>result_run_id = rid, result_status = status,
                   rows_processed = length rows\<rparr>, w))"

text \<open>The wait before the retry that follows a failed attempt.\<close>

definition backoff :: "nat \<Rightarrow> nat" where
  "backoff attempt = min (RETRY_BASE_DELAY_SECONDS * attempt) 10"

text \<open>Every row of the batch has a date that \<open>datetime\<close> accepts.\<close>

definition valid_dates :: "'a base_row_scheme list \<Rightarrow> bool" where
  "valid_dates rows =
     list_all (\<lambda>row. case first_of_month (year row) (month row) of
                        Inl err \<Rightarrow> False | Inr d \<Rightarrow> True) rows"

text \<open>
  The fault scheduled for a transaction is reached by a batch of \<open>n\<close> rows: a fault in
  the statements of row \<open>j\<close> needs that row.
\<close>

definition fires :: "(fault_point \<times> string) option \<Rightarrow> nat \<Rightarrow> bool" where
  "fires f n =
     (case f of
        None \<Rightarrow> False
      | Some (AtResolve j, msg) \<Rightarrow> j < n
      | Some (AtUpsert j, msg) \<Rightarrow> j < n
      | Some (p, msg) \<Rightarrow> True)"

definition fault_msg :: "(fault_point \<times> string) option \<Rightarrow> string" where
  "fault_msg f = (case f of None \<Rightarrow> [] | Some (p, msg) \<Rightarrow> msg)"

text \<open>What the resolver leaves alone in the database.\<close>

definition same_facts :: "database \<Rightarrow> database \<Rightarrow> bool" where
  "same_facts d d' \<longleftrightarrow>
     raw_series_table d' = raw_series_table d
     \<and> series_table d' = series_table d
     \<and> etl_runs_table d' = etl_runs_table d"

subsection \<open>A test scenario\<close>

text \<open>
  The four-row annex of the integration test (Rice and Milk for All India, January and
  February 2023), a world that starts at a given database, and an environment with a
  given fault schedule.
\<close>

definition sample_rows :: "base_row list" where
  "sample_rows =
     [\<lparr>item_alias = ''Rice'', region_alias = ''All India'', year = 2023, month = 1,
        index_value = Finite (701 / 5)\<rparr>,
      \<lparr>item_alias = ''Rice'', region_alias = ''All India'', year = 2023, month = 2,
        index_value = Finite 141\<rparr>,
      \<lparr>item_alias = ''Milk'', region_alias = ''All India'', year = 2023, month = 1,
        index_value = Finite (1203 / 10)\<rparr>,
      \<lparr>item_alias = ''Milk'', region_alias = ''All India'', year = 2023, month = 2,
        index_value = Finite 121\<rparr>]"

definition initial_world :: "database \<Rightarrow> world" where
  "initial_world d =
     \<lparr>db = d, clock_reads = 0, txn_count = 0, uuid_count = 0, slept = [], logger = []\<rparr>"

definition test_env :: "(nat \<Rightarrow> (fault_point \<times> string) option) \<Rightarrow> env" where
  "test_env f =
     \<lparr>clock = (\<lambda>k. k), isoformat = str_nat, uuid4 = (\<lambda>k. ''run-'' @ str_nat k), fault = f\<rparr>"

section \<open>The adapters of the phase 3 pipeline\<close>

subsection \<open>Conversions of the interpreter\<close>









subsection \<open>Helpers\<close>
















subsection \<open>Data frames\<close>






subsection \<open>The annex of MOSPI\<close>








subsection \<open>The resources of Data.gov.in\<close>




subsection \<open>The series of the IMF\<close>






subsection \<open>The resources of DPIIT\<close>





subsection \<open>Scenarios for the adapters\<close>









section \<open>Properties\<close>

text \<open>
  C10. \<open>month_to_number\<close> validates string inputs only: every integer argument is returned
  unchanged, whether or not it lies in 1..12. The out-of-range months 0 and 13 pass the
  month normalisation and are rejected only when the ingestion builds the date.
\<close>

theorem month_to_number_int_unchecked:
  "(\<forall>n. month_to_number (CInt n) = Inr n)
   \<and> month_to_number (CInt 0) = Inr 0
   \<and> month_to_number (CInt 13) = Inr 13
   \<and> month_to_number (CStr ''13'') = Inl ValueError
   \<and> first_of_month 2024 0 = Inl ValueError
   \<and> first_of_month 2024 13 = Inl ValueError"
  by (simp add: first_of_month_def c_int_def month_lookup_def lower_def strip_def
      lower_char_def is_upper_def is_space_def ord_def)

text \<open>
  C5, as stated, fails: on the manager of the empty database \<open>ensure_region\<close> stores the
  new region \<open>Delhi (Urban)\<close> with type \<open>unknown\<close> although the alias infers \<open>urban\<close>, and
  resolving a second spelling of the same region returns the id and leaves the manager as
  it is, registering nothing.
\<close>

theorem ensure_region_counterexample:
  "regions_table (conn (snd (ensure_region ''Delhi (Urban)'' (DimensionManager empty_database))))
     = [\<lparr>region_id = 1, code = ''delhi-urban'', name = ''Delhi (Urban)'', rtype = ''unknown''\<rparr>]
   \<and> infer_region_type ''Delhi (Urban)'' = ''urban''
   \<and> ensure_region ''DELHI  urban''
        (snd (ensure_region ''Delhi (Urban)'' (DimensionManager empty_database)))
     = (1, snd (ensure_region ''Delhi (Urban)'' (DimensionManager empty_database)))"
  by code_simp

text \<open>
  C5, amended. \<open>ensure_region\<close> resolves by the normalized alias token. On an existing match
  it returns the region's id and changes nothing (a region keeps no alias list and there
  is no second lookup by code candidate). Otherwise it inserts one region whose code is the
  disambiguated slug of the alias, whose name is the alias and whose type is \<open>unknown\<close>,
  and registers it under the alias token.
\<close>

theorem ensure_region_behaviour:
  "(get_region dm (normalize_alias alias) = Some (a, r) \<longrightarrow>
      ensure_region alias dm = (region_id r, dm))
   \<and> (get_region dm (normalize_alias alias) = None \<longrightarrow>
      (let i = next_id (map region_id (regions_table (conn dm)));
           new = \<lparr>region_id = i, code = unique_region_code dm (slugify alias),
                  name = alias, rtype = ''unknown''\<rparr>;
           dm' = snd (ensure_region alias dm)
       in fst (ensure_region alias dm) = i
          \<and> regions_table (conn dm') = regions_table (conn dm) @ [new]
          \<and> fmlookup (regions dm') i = Some new
          \<and> get_region dm' (normalize_alias alias) = Some (i, new)))"
  by (simp add: ensure_region_def Let_def insert_region_def register_region_alias_def
      get_region_def split: prod.splits)

text \<open>Witness for C5: both branches of \<open>ensure_region\<close> on the empty database.\<close>

theorem ensure_region_behaviour_witness:
  "get_region (DimensionManager empty_database) (normalize_alias ''Delhi (Urban)'') = None
   \<and> rtype (last (regions_table (conn (snd (ensure_region ''Delhi (Urban)'' (DimensionManager empty_database)))))) = ''unknown''
   \<and> get_region (snd (ensure_region ''Delhi (Urban)'' (DimensionManager empty_database)))
         (normalize_alias ''DELHI  urban'')
       = Some (1, \<lparr>region_id = 1, code = ''delhi-urban'', name = ''Delhi (Urban)'', rtype = ''unknown''\<rparr>)
   \<and> ensure_region ''DELHI  urban''
        (snd (ensure_region ''Delhi (Urban)'' (DimensionManager empty_database)))
     = (1, snd (ensure_region ''Delhi (Urban)'' (DimensionManager empty_database)))"
proof -
  let ?dm0 = "DimensionManager empty_database"
  let ?dm1 = "snd (ensure_region ''Delhi (Urban)'' ?dm0)"
  let ?r = "\<lparr>region_id = 1, code = ''delhi-urban'', name = ''Delhi (Urban)'', rtype = ''unknown''\<rparr>"
  have h0: "get_region ?dm0 (normalize_alias ''Delhi (Urban)'') = None"
    by code_simp
  have h1: "get_region ?dm1 (normalize_alias ''DELHI  urban'') = Some (1, ?r)"
    by code_simp
  have c0: "rtype (last (regions_table (conn ?dm1))) = ''unknown''"
    using ensure_region_behaviour [of ?dm0 "''Delhi (Urban)''"] h0 by (simp add: Let_def)
  have c1: "ensure_region ''DELHI  urban'' ?dm1 = (1, ?dm1)"
    using ensure_region_behaviour [of ?dm1 "''DELHI  urban''" 1 ?r] h1 by simp
  from h0 h1 c0 c1 show ?thesis by simp
qed

subsection \<open>Slug disambiguation\<close>

lemma unique_loop_free:
  "candidate \<notin> fmdom' idx \<Longrightarrow> unique_loop idx base candidate counter = candidate"
  by (subst unique_loop.simps) simp

lemma unique_loop_taken:
  "candidate \<in> fmdom' idx \<Longrightarrow>
   unique_loop idx base candidate counter
     = unique_loop idx base (suffixed base (Suc counter)) (Suc counter)"
  by (subst unique_loop.simps) simp

lemma unique_loop_fresh: "unique_loop idx base candidate counter \<notin> fmdom' idx"
proof (induction idx base candidate counter rule: unique_loop.induct)
  case (1 idx base candidate counter)
  then show ?case
    by (cases "candidate \<in> fmdom' idx") (simp_all add: unique_loop_free unique_loop_taken)
qed

lemma nth_candidate_Suc: "1 \<le> k \<Longrightarrow> nth_candidate base (Suc k) = suffixed base (Suc k)"
  by (simp add: nth_candidate_def)

lemma unique_loop_first_free:
  assumes "m \<le> j" "1 \<le> m"
    and "\<forall>k. m \<le> k \<and> k < j \<longrightarrow> nth_candidate base k \<in> fmdom' idx"
    and "nth_candidate base j \<notin> fmdom' idx"
  shows "unique_loop idx base (nth_candidate base m) m = nth_candidate base j"
  using assms
proof (induction "j - m" arbitrary: m)
  case 0
  then have "m = j" by simp
  with 0 show ?case by (simp add: unique_loop_free)
next
  case (Suc d)
  then have lt: "m < j" by simp
  with Suc.prems have "nth_candidate base m \<in> fmdom' idx" by simp
  then have "unique_loop idx base (nth_candidate base m) m
      = unique_loop idx base (nth_candidate base (Suc m)) (Suc m)"
    using Suc.prems(2) by (simp add: unique_loop_taken nth_candidate_Suc)
  also have "\<dots> = nth_candidate base j"
  proof (rule Suc.hyps(1))
    show "d = j - Suc m" using Suc.hyps(2) by simp
    show "Suc m \<le> j" using lt by simp
    show "1 \<le> Suc m" by simp
    show "\<forall>k. Suc m \<le> k \<and> k < j \<longrightarrow> nth_candidate base k \<in> fmdom' idx"
      using Suc.prems(3) by simp
    show "nth_candidate base j \<notin> fmdom' idx" by (rule Suc.prems(4))
  qed
  finally show ?case .
qed

lemma nth_candidate_inj:
  assumes "nth_candidate base a = nth_candidate base b" "1 \<le> a" "1 \<le> b"
  shows "a = b"
proof -
  have ne: "base \<noteq> suffixed base k" for k
    by (simp add: suffixed_def)
  show ?thesis
    using assms ne [of a] ne [of b] suffixed_inj [of base a b]
    by (auto simp: nth_candidate_def split: if_splits)
qed


lemma ensure_item_unseen:
  "unseen_item alias dm \<Longrightarrow> ensure_item alias dm = create_item (slugify alias) alias dm"
  by (simp add: unseen_item_def ensure_item_def Let_def)

lemma create_item_table:
  "items_table (conn (snd (create_item c alias dm)))
     = items_table (conn dm)
       @ [\<lparr>item_id = next_id (map item_id (items_table (conn dm))),
           slug = unique_item_slug dm c, canonical_name = alias, aliases = [alias]\<rparr>]"
  by (simp add: create_item_def Let_def insert_item_def register_item_alias_def
      split: prod.splits)

lemma create_item_slug_index:
  "slug_index (snd (create_item c alias dm))
     = fmupd (unique_item_slug dm c) (next_id (map item_id (items_table (conn dm))))
         (slug_index dm)"
  by (simp add: create_item_def Let_def insert_item_def register_item_alias_def
      split: prod.splits)

lemma unique_item_slug_fresh: "unique_item_slug dm c \<notin> fmdom' (slug_index dm)"
  by (simp add: unique_item_slug_def Let_def unique_loop_fresh)

lemma ensure_items_Cons:
  "snd (ensure_items (a # as) dm) = snd (ensure_items as (snd (ensure_item a dm)))"
  by (simp add: Let_def split: prod.splits)

lemma all_new_rows:
  "all_new labels dm \<Longrightarrow>
   \<exists>rows. items_table (conn (snd (ensure_items labels dm))) = items_table (conn dm) @ rows
     \<and> map canonical_name rows = labels
     \<and> distinct (map slug rows)
     \<and> fmdom' (slug_index (snd (ensure_items labels dm)))
         = fmdom' (slug_index dm) \<union> set (map slug rows)
     \<and> set (map slug rows) \<inter> fmdom' (slug_index dm) = {}"
proof (induction labels arbitrary: dm)
  case Nil
  then show ?case by simp
next
  case (Cons a as)
  let ?dm1 = "snd (ensure_item a dm)"
  let ?row = "\<lparr>item_id = next_id (map item_id (items_table (conn dm))),
           slug = unique_item_slug dm (slugify a), canonical_name = a, aliases = [a]\<rparr>"
  from Cons.prems have u: "unseen_item a dm" and rest: "all_new as ?dm1" by simp_all
  from u have e: "ensure_item a dm = create_item (slugify a) a dm"
    by (rule ensure_item_unseen)
  have t1: "items_table (conn ?dm1) = items_table (conn dm) @ [?row]"
    by (simp add: e create_item_table)
  have s1: "fmdom' (slug_index ?dm1) = insert (slug ?row) (fmdom' (slug_index dm))"
    by (simp add: e create_item_slug_index)
  have f1: "slug ?row \<notin> fmdom' (slug_index dm)"
    by (simp add: unique_item_slug_fresh)
  from Cons.IH [OF rest] obtain rows where
    r1: "items_table (conn (snd (ensure_items as ?dm1))) = items_table (conn ?dm1) @ rows"
    and r2: "map canonical_name rows = as"
    and r3: "distinct (map slug rows)"
    and r4: "fmdom' (slug_index (snd (ensure_items as ?dm1)))
         = fmdom' (slug_index ?dm1) \<union> set (map slug rows)"
    and r5: "set (map slug rows) \<inter> fmdom' (slug_index ?dm1) = {}"
    by blast
  have g1: "items_table (conn (snd (ensure_items (a # as) dm))) = items_table (conn dm) @ (?row # rows)"
    by (simp only: ensure_items_Cons r1 t1) simp
  have g2: "map canonical_name (?row # rows) = a # as"
    using r2 by simp
  have g3: "distinct (map slug (?row # rows))"
    using r3 r5 s1 by auto
  have g4: "fmdom' (slug_index (snd (ensure_items (a # as) dm)))
         = fmdom' (slug_index dm) \<union> set (map slug (?row # rows))"
    by (simp only: ensure_items_Cons r4 s1) auto
  have g5: "set (map slug (?row # rows)) \<inter> fmdom' (slug_index dm) = {}"
    using r5 s1 f1 by auto
  show ?case
    by (rule exI [of _ "?row # rows"]) (intro conjI g1 g2 g3 g4 g5)
qed

lemma all_new_names:
  assumes "all_new labels dm"
    and "\<forall>a\<in>set labels. slugify a = c"
    and "\<forall>k\<ge>1. nth_candidate (if c \<noteq> [] then c else ''item'') k \<in> fmdom' (slug_index dm)
           \<longleftrightarrow> k \<le> j"
  shows "map slug (drop (length (items_table (conn dm)))
            (items_table (conn (snd (ensure_items labels dm)))))
         = map (nth_candidate (if c \<noteq> [] then c else ''item''))
             [Suc j ..< Suc j + length labels]"
  using assms
proof (induction labels arbitrary: dm j)
  case Nil
  then show ?case by simp
next
  case (Cons a as)
  let ?base = "if c \<noteq> [] then c else ''item''"
  let ?dm1 = "snd (ensure_item a dm)"
  let ?row = "\<lparr>item_id = next_id (map item_id (items_table (conn dm))),
           slug = unique_item_slug dm (slugify a), canonical_name = a, aliases = [a]\<rparr>"
  from Cons.prems have u: "unseen_item a dm" and rest: "all_new as ?dm1" by simp_all
  from Cons.prems have ca: "slugify a = c" and cas: "\<forall>a\<in>set as. slugify a = c" by simp_all
  from u have e: "ensure_item a dm = create_item (slugify a) a dm"
    by (rule ensure_item_unseen)
  have t1: "items_table (conn ?dm1) = items_table (conn dm) @ [?row]"
    by (simp add: e create_item_table)
  have s1: "fmdom' (slug_index ?dm1) = insert (slug ?row) (fmdom' (slug_index dm))"
    by (simp add: e create_item_slug_index)
  have fam: "\<forall>k\<ge>1. nth_candidate ?base k \<in> fmdom' (slug_index dm) \<longleftrightarrow> k \<le> j"
    by (rule Cons.prems(3))
  have "unique_loop (slug_index dm) ?base (nth_candidate ?base 1) 1 = nth_candidate ?base (Suc j)"
  proof (rule unique_loop_first_free)
    show "1 \<le> Suc j" by simp
    show "(1::nat) \<le> 1" by simp
    show "\<forall>k. 1 \<le> k \<and> k < Suc j \<longrightarrow> nth_candidate ?base k \<in> fmdom' (slug_index dm)"
      using fam by simp
    show "nth_candidate ?base (Suc j) \<notin> fmdom' (slug_index dm)"
      using fam by simp
  qed
  then have name: "slug ?row = nth_candidate ?base (Suc j)"
    by (simp add: unique_item_slug_def ca nth_candidate_def)
  have fam1: "\<forall>k\<ge>1. nth_candidate ?base k \<in> fmdom' (slug_index ?dm1) \<longleftrightarrow> k \<le> Suc j"
  proof (intro allI impI)
    fix k :: nat assume k: "1 \<le> k"
    have "nth_candidate ?base k = nth_candidate ?base (Suc j) \<longleftrightarrow> k = Suc j"
      using nth_candidate_inj [of ?base k "Suc j"] k by auto
    then show "nth_candidate ?base k \<in> fmdom' (slug_index ?dm1) \<longleftrightarrow> k \<le> Suc j"
      using fam k by (simp only: s1 name insert_iff) (metis le_Suc_eq)
  qed
  from Cons.prems(1) obtain rows where
    all: "items_table (conn (snd (ensure_items (a # as) dm))) = items_table (conn dm) @ rows"
    using all_new_rows by blast
  have IH: "map slug (drop (length (items_table (conn ?dm1)))
            (items_table (conn (snd (ensure_items as ?dm1)))))
         = map (nth_candidate ?base) [Suc (Suc j) ..< Suc (Suc j) + length as]"
    by (rule Cons.IH [OF rest cas fam1])
  from rest obtain rows1 where
    r1: "items_table (conn (snd (ensure_items as ?dm1))) = items_table (conn ?dm1) @ rows1"
    using all_new_rows by blast
  have "drop (length (items_table (conn dm))) (items_table (conn (snd (ensure_items (a # as) dm))))
      = ?row # rows1"
    by (simp only: ensure_items_Cons r1 t1) simp
  moreover have "map slug rows1 = map (nth_candidate ?base) [Suc (Suc j) ..< Suc (Suc j) + length as]"
    using IH by (simp only: r1) simp
  moreover have "[Suc j ..< Suc j + length (a # as)] = Suc j # [Suc (Suc j) ..< Suc (Suc j) + length as]"
    by (simp add: upt_rec)
  ultimately show ?case using name by simp
qed

lemma next_id_fresh: "next_id ids \<notin> set ids"
proof -
  have "x \<in> set ids \<Longrightarrow> x \<le> foldr max ids 0" for x
    by (induction ids) auto
  then show ?thesis
    unfolding next_id_def by (metis Suc_n_not_le_n)
qed

lemma get_item_SomeD: "get_item dm t = Some (a, r) \<Longrightarrow> fmlookup (items dm) a = Some r"
  by (auto simp: get_item_def split: option.splits)

lemma slug_index_ok_register:
  "slug_index_ok (register_item_alias a alias dm) = slug_index_ok dm"
  by (simp add: slug_index_ok_def register_item_alias_def)

lemma slug_index_ok_append:
  assumes "slug_index_ok dm" "fmlookup (items dm) a = Some r"
  shows "slug_index_ok (append_item_alias_if_needed (a, r) alias dm)"
proof -
  have "map item_id (items_table (update_item_aliases i new db)) = map item_id (items_table db)"
    for i new db
    by (simp add: update_item_aliases_def comp_def)
  then have ids: "item_id ` set (items_table (update_item_aliases i new db))
      = item_id ` set (items_table db)" for i new db
    by (metis set_map)
  from assms show ?thesis
    unfolding append_item_alias_if_needed_def Let_def
    by (auto simp: register_item_alias_def slug_index_ok_def ids fmdom'I
        split: if_splits)
qed

lemma slug_index_ok_create:
  assumes "slug_index_ok dm"
  shows "slug_index_ok (snd (create_item c alias dm))"
proof -
  let ?i = "next_id (map item_id (items_table (conn dm)))"
  let ?s = "unique_item_slug dm c"
  have fresh_i: "?i \<notin> fmdom' (items dm)"
    using assms next_id_fresh [of "map item_id (items_table (conn dm))"]
    by (auto simp: slug_index_ok_def)
  have fresh_s: "fmlookup (slug_index dm) ?s = None"
    using unique_item_slug_fresh [of dm c] by (simp add: fmdom'_notD)
  have old: "a \<noteq> ?i \<and> slug r \<noteq> ?s" if l: "fmlookup (items dm) a = Some r" for a r
  proof
    show "a \<noteq> ?i" using l fresh_i by (auto simp: fmdom'I)
    have "fmlookup (slug_index dm) (slug r) = Some a"
      using assms l by (simp add: slug_index_ok_def)
    then show "slug r \<noteq> ?s" using fresh_s by auto
  qed
  show ?thesis
    using assms
    unfolding create_item_def Let_def insert_item_def
    apply (auto simp: register_item_alias_def slug_index_ok_def split: prod.splits if_splits)
    apply (metis old)
    done
qed

lemma slug_index_ok_ensure_item:
  assumes "slug_index_ok dm"
  shows "slug_index_ok (snd (ensure_item alias dm))"
  using assms
  unfolding ensure_item_def Let_def
  by (auto split: option.splits
      intro: slug_index_ok_append slug_index_ok_create dest: get_item_SomeD)

lemma slug_index_ok_ensure_items:
  "slug_index_ok dm \<Longrightarrow> slug_index_ok (snd (ensure_items labels dm))"
proof (induction labels arbitrary: dm)
  case Nil
  then show ?case by simp
next
  case (Cons a as)
  then show ?case
    by (simp only: ensure_items_Cons slug_index_ok_ensure_item)
qed

lemma slug_index_ok_distinct:
  assumes "slug_index_ok dm" "fmlookup (items dm) a = Some r" "fmlookup (items dm) b = Some r'"
    "slug r = slug r'"
  shows "a = b"
  using assms by (metis option.inject slug_index_ok_def)

text \<open>
  C8. Labels that normalize to the same slug candidate and are all resolved as new items
  by \<open>ensure_item\<close> append one row each to the items table; the slugs of these rows are
  pairwise distinct and differ from every slug already in the slug index. The suffixes are
  deterministic: when exactly the first \<open>j\<close> candidates (base, base-2, ..., base-j) are
  taken, the new slugs are the candidates \<open>j + 1\<close>, ..., \<open>j + N\<close> in order, so on a fresh
  index the first label gets the base slug and the following ones the suffixes 2, 3, ...
  The slug index stays the inverse of the slug field: no two records share a slug.
\<close>

theorem slug_disambiguation:
  assumes "all_new labels dm"
    and "\<forall>a\<in>set labels. slugify a = c"
  shows "let base = (if c \<noteq> [] then c else ''item'');
             dm' = snd (ensure_items labels dm);
             new_rows = drop (length (items_table (conn dm))) (items_table (conn dm'))
         in take (length (items_table (conn dm))) (items_table (conn dm')) = items_table (conn dm)
            \<and> map canonical_name new_rows = labels
            \<and> distinct (map slug new_rows)
            \<and> set (map slug new_rows) \<inter> fmdom' (slug_index dm) = {}
            \<and> ((\<forall>k\<ge>1. nth_candidate base k \<in> fmdom' (slug_index dm) \<longleftrightarrow> k \<le> j) \<longrightarrow>
                 map slug new_rows = map (nth_candidate base) [Suc j ..< Suc j + length labels])
            \<and> (slug_index_ok dm \<longrightarrow>
                 slug_index_ok dm'
                 \<and> (\<forall>a b r r'. fmlookup (items dm') a = Some r \<and> fmlookup (items dm') b = Some r'
                       \<and> slug r = slug r' \<longrightarrow> a = b))"
proof -
  from assms(1) obtain rows where
    r: "items_table (conn (snd (ensure_items labels dm))) = items_table (conn dm) @ rows"
      "map canonical_name rows = labels" "distinct (map slug rows)"
      "set (map slug rows) \<inter> fmdom' (slug_index dm) = {}"
    using all_new_rows [of labels dm] by blast
  have names: "map slug (drop (length (items_table (conn dm)))
            (items_table (conn (snd (ensure_items labels dm)))))
         = map (nth_candidate (if c \<noteq> [] then c else ''item''))
             [Suc j ..< Suc j + length labels]"
    if "\<forall>k\<ge>1. nth_candidate (if c \<noteq> [] then c else ''item'') k \<in> fmdom' (slug_index dm)
           \<longleftrightarrow> k \<le> j"
    using assms that by (rule all_new_names)
  have inv: "slug_index_ok (snd (ensure_items labels dm))
      \<and> (\<forall>a b r r'. fmlookup (items (snd (ensure_items labels dm))) a = Some r
            \<and> fmlookup (items (snd (ensure_items labels dm))) b = Some r'
            \<and> slug r = slug r' \<longrightarrow> a = b)"
    if ok: "slug_index_ok dm"
  proof -
    have "slug_index_ok (snd (ensure_items labels dm))"
      using ok by (rule slug_index_ok_ensure_items)
    then show ?thesis
      using slug_index_ok_distinct by blast
  qed
  show ?thesis
    unfolding Let_def
    using r names inv by simp
qed

text \<open>
  Witness for C8: three labels without any alphanumeric character, resolved on the empty
  database, become the items \<open>item\<close>, \<open>item-2\<close> and \<open>item-3\<close>.
\<close>

theorem slug_disambiguation_witness:
  "all_new [''!!!'', ''???'', ''***''] (DimensionManager empty_database)
   \<and> slugify ''!!!'' = [] \<and> slugify ''???'' = [] \<and> slugify ''***'' = []
   \<and> slug_index_ok (DimensionManager empty_database)
   \<and> map slug (items_table (conn (snd (ensure_items [''!!!'', ''???'', ''***'']
          (DimensionManager empty_database)))))
       = [''item'', ''item-2'', ''item-3'']
   \<and> slug_index_ok (snd (ensure_items [''!!!'', ''???'', ''***'']
          (DimensionManager empty_database)))"
proof -
  let ?dm = "DimensionManager empty_database"
  let ?ls = "[''!!!'', ''???'', ''***'']"
  have h1: "all_new ?ls ?dm" by code_simp
  have s: "slugify ''!!!'' = []" "slugify ''???'' = []" "slugify ''***'' = []"
    by code_simp+
  then have h2: "\<forall>a\<in>set ?ls. slugify a = []" by simp
  have e: "items_table (conn ?dm) = []" "slug_index ?dm = fmempty" "items ?dm = fmempty"
    by code_simp+
  have h3: "\<forall>k\<ge>1. nth_candidate (if [] \<noteq> ([]::string) then [] else ''item'') k
               \<in> fmdom' (slug_index ?dm) \<longleftrightarrow> k \<le> 0"
    by (simp add: e)
  have h4: "slug_index_ok ?dm"
    by (simp add: slug_index_ok_def e)
  have n: "map (nth_candidate ''item'') [Suc 0 ..< Suc 0 + length ?ls] = [''item'', ''item-2'', ''item-3'']"
    by code_simp
  from slug_disambiguation [OF h1 h2, of 0] h3 h4 n
  have "map slug (items_table (conn (snd (ensure_items ?ls ?dm)))) = [''item'', ''item-2'', ''item-3'']
        \<and> slug_index_ok (snd (ensure_items ?ls ?dm))"
    by (simp add: Let_def e)
  with h1 s h4 show ?thesis by simp
qed

subsection \<open>Alias convergence\<close>

lemma collapse_eq_Nil: "collapse xs = [] \<longleftrightarrow> xs = []"
  by (cases xs) simp_all

lemma set_collapse: "set (collapse xs) \<subseteq> insert CHR ''-'' {c \<in> set xs. \<not> is_sep c}"
proof (induction xs rule: collapse.induct)
  case 1
  then show ?case by simp
next
  case (2 c cs)
  show ?case
  proof (cases "is_sep c")
    case True
    with 2 have "set (collapse (dropWhile is_sep cs))
        \<subseteq> insert CHR ''-'' {c \<in> set (dropWhile is_sep cs). \<not> is_sep c}" by simp
    then have "set (collapse (dropWhile is_sep cs)) \<subseteq> insert CHR ''-'' {c \<in> set cs. \<not> is_sep c}"
      using set_dropWhileD by fastforce
    with True show ?thesis by auto
  next
    case False
    with 2 show ?thesis by auto
  qed
qed

lemma set_strip: "set (strip xs) \<subseteq> set xs"
  unfolding strip_def by (auto dest!: set_dropWhileD)

lemma strip_eq_Nil: "strip xs = [] \<longleftrightarrow> (\<forall>c\<in>set xs. is_space c)"
proof
  assume "strip xs = []"
  then have "\<forall>c\<in>set (dropWhile is_space xs). is_space c"
    by (simp add: strip_def)
  then have "dropWhile is_space xs = []"
    by (metis hd_dropWhile list.set_sel(1))
  then show "\<forall>c\<in>set xs. is_space c"
    by simp
next
  assume "\<forall>c\<in>set xs. is_space c"
  then show "strip xs = []"
    by (auto simp: strip_def dest: set_dropWhileD)
qed

lemma ord_hyphen: "ord CHR ''-'' = 45"
  by (simp add: ord_def)

lemma lower_char_upper: "is_upper d \<Longrightarrow> is_lower (lower_char d)"
  by (simp add: lower_char_def is_upper_def is_lower_def ord_def)

lemma lower_char_other: "\<not> is_upper d \<Longrightarrow> ord d < 192 \<Longrightarrow> lower_char d = d"
  by (simp add: lower_char_def)

lemma ord_lower_char_capital:
  assumes "192 \<le> ord d" "ord d \<le> 222"
  shows "ord (char_of (ord d + 32)) = ord d + 32"
  using assms by (simp add: ord_def)

lemma slug_keep_ord: "slug_keep d \<Longrightarrow> ord d < 192"
  by (auto simp: slug_keep_def is_lower_def is_upper_def is_digit_def is_space_def ord_hyphen)

lemma slug_keep_lower_char:
  assumes "slug_keep d" "\<not> is_sep (lower_char d)"
  shows "slug_char (lower_char d)"
proof (cases "is_upper d")
  case True
  then show ?thesis by (simp add: slug_char_def lower_char_upper)
next
  case False
  with assms slug_keep_ord [OF assms(1)] show ?thesis
    by (auto simp: lower_char_other slug_char_def slug_keep_def is_sep_def)
qed

lemma slugify_chars: "c \<in> set (slugify v) \<Longrightarrow> slug_char c"
proof -
  assume c: "c \<in> set (slugify v)"
  let ?xs = "lower (strip (filter slug_keep (nfkd_ascii_ignore v)))"
  from c have "c \<in> insert CHR ''-'' {c \<in> set ?xs. \<not> is_sep c}"
    using set_collapse [of ?xs] by (auto simp: slugify_def Let_def)
  then consider "c = CHR ''-''" | "c \<in> set ?xs" "\<not> is_sep c" by auto
  then show ?thesis
  proof cases
    case 1
    then show ?thesis by (simp add: slug_char_def)
  next
    case 2
    then obtain d where d: "d \<in> set (strip (filter slug_keep (nfkd_ascii_ignore v)))"
        "c = lower_char d"
      by (auto simp: lower_def)
    then have "slug_keep d" using set_strip by fastforce
    with 2 d show ?thesis by (simp add: slug_keep_lower_char)
  qed
qed

lemma slug_char_not_space: "slug_char c \<Longrightarrow> \<not> is_space c"
  by (auto simp: slug_char_def is_lower_def is_digit_def is_space_def ord_hyphen)

lemma upper_not_space: "is_upper c \<Longrightarrow> \<not> is_space c"
  by (auto simp: is_upper_def is_space_def)

lemma slug_char_keep: "slug_char c \<Longrightarrow> slug_keep c \<and> is_ascii c"
  by (auto simp: slug_char_def slug_keep_def is_ascii_def is_lower_def is_digit_def ord_hyphen)

lemma upper_keep: "is_upper c \<Longrightarrow> slug_keep c \<and> is_ascii c"
  by (auto simp: slug_keep_def is_ascii_def is_upper_def)

lemma nfkd_ascii_ascii: "is_ascii c \<Longrightarrow> nfkd_ascii c = [c]"
  by (simp add: nfkd_ascii_def is_ascii_def Let_def)

text \<open>Only an ASCII letter, digit or hyphen is lower-cased to a character of a slug.\<close>

lemma slug_char_lower_char:
  assumes "slug_char (lower_char d)"
  shows "is_upper d \<or> (lower_char d = d \<and> slug_char d)"
proof (cases "is_upper d")
  case True
  then show ?thesis by simp
next
  case nu: False
  show ?thesis
  proof (cases "192 \<le> ord d \<and> ord d \<le> 222 \<and> ord d \<noteq> 215")
    case True
    then have "lower_char d = char_of (ord d + 32)"
      by (simp add: lower_char_def)
    with True have "224 \<le> ord (lower_char d)"
      using ord_lower_char_capital [of d] by simp
    with assms show ?thesis
      by (auto simp: slug_char_def is_lower_def is_digit_def ord_hyphen)
  next
    case False
    with nu have "\<not> (is_upper d \<or> (192 \<le> ord d \<and> ord d \<le> 222 \<and> ord d \<noteq> 215))"
      by blast
    then have "lower_char d = d"
      unfolding lower_char_def by (rule if_not_P)
    with assms show ?thesis by simp
  qed
qed

lemma slugify_Nil_chars:
  assumes "slugify v = []" "c \<in> set (lower (strip v))"
  shows "\<not> slug_char c"
proof
  assume sc: "slug_char c"
  from assms(1) have "\<forall>d\<in>set (nfkd_ascii_ignore v). slug_keep d \<longrightarrow> is_space d"
    by (auto simp: slugify_def Let_def collapse_eq_Nil lower_def strip_eq_Nil)
  then have sp: "\<forall>e\<in>set v. \<forall>d\<in>set (nfkd_ascii e). slug_keep d \<longrightarrow> is_space d"
    by (auto simp: nfkd_ascii_ignore_def)
  from assms(2) obtain d where d: "d \<in> set v" "c = lower_char d"
    using set_strip by (fastforce simp: lower_def)
  from sc d(2) have "is_upper d \<or> (lower_char d = d \<and> slug_char d)"
    by (simp add: slug_char_lower_char)
  then have k: "slug_keep d \<and> is_ascii d" and ns: "\<not> is_space d"
    using upper_keep upper_not_space slug_char_keep slug_char_not_space by blast+
  from k have "nfkd_ascii d = [d]" by (simp add: nfkd_ascii_ascii)
  with sp d(1) k have "is_space d" by fastforce
  with ns show False by simp
qed

lemma normalize_alias_slugify:
  assumes "normalize_alias a1 = normalize_alias a2"
  shows "slugify a1 = slugify a2"
proof -
  have mixed: False if e: "slugify x = []" and n: "slugify y \<noteq> []"
    and t: "lower (strip x) = slugify y" for x y
  proof -
    from n obtain c where c: "c \<in> set (slugify y)" by (cases "slugify y") auto
    then have "slug_char c" by (rule slugify_chars)
    moreover from c t have "c \<in> set (lower (strip x))" by simp
    ultimately show False using slugify_Nil_chars [OF e] by blast
  qed
  show ?thesis
  proof (cases "slugify a1 = []")
    case e1: True
    show ?thesis
    proof (cases "slugify a2 = []")
      case True
      with e1 show ?thesis by simp
    next
      case False
      with e1 assms have "lower (strip a1) = slugify a2"
        by (simp add: normalize_alias_def Let_def)
      with e1 False mixed show ?thesis by blast
    qed
  next
    case n1: False
    show ?thesis
    proof (cases "slugify a2 = []")
      case True
      with n1 assms have "lower (strip a2) = slugify a1"
        by (simp add: normalize_alias_def Let_def)
      with n1 True mixed show ?thesis by blast
    next
      case False
      with n1 assms show ?thesis by (simp add: normalize_alias_def Let_def)
    qed
  qed
qed

text \<open>
  The rules on text beyond ASCII, at \<open>Caf\<close> followed by U+00E9, at a no-break space
  between two letters, at one half, and at the letter U+00C6: the accent is stripped, the
  no-break space becomes a hyphen, the fraction leaves its digits, and a text without any
  ASCII part is its own token, lower-cased.
\<close>

lemma slugify_beyond_ascii:
  "slugify (''Caf'' @ [char_of (233 :: nat)]) = ''cafe''"
  "slugify ''Caf'' = ''caf''"
  "slugify ([CHR ''a'', char_of (160 :: nat), CHR ''b'']) = ''a-b''"
  "slugify (char_of (189 :: nat) # '' cup'') = ''12-cup''"
  "slugify [char_of (198 :: nat)] = []"
  "normalize_alias [char_of (198 :: nat)] = [char_of (230 :: nat)]"
  "normalize_alias (''Caf'' @ [char_of (233 :: nat)]) = normalize_alias ''Cafe''"
  "normalize_alias (''Caf'' @ [char_of (233 :: nat)]) \<noteq> normalize_alias ''Caf''"
  by code_simp+

text \<open>
  C2, as stated, fails: under the rule of the specification \<open>Fuel/Light\<close> and \<open>Fuel Light\<close>
  have the same token, but \<open>slugify\<close> deletes the slash instead of turning it into a
  hyphen, so the two aliases become two items, \<open>fuellight\<close> and \<open>fuel-light\<close>.
\<close>

theorem alias_convergence_counterexample:
  "spec_normalized_token ''Fuel/Light'' = spec_normalized_token ''Fuel Light''
   \<and> fst (ensure_item ''Fuel/Light'' (DimensionManager empty_database)) = 1
   \<and> fst (ensure_item ''Fuel Light''
        (snd (ensure_item ''Fuel/Light'' (DimensionManager empty_database)))) = 2
   \<and> map slug (items_table (conn (snd (ensure_item ''Fuel Light''
        (snd (ensure_item ''Fuel/Light'' (DimensionManager empty_database)))))))
      = [''fuellight'', ''fuel-light'']"
  by code_simp

lemma ensure_item_hit:
  "get_item dm (normalize_alias a) = Some (ad, r) \<Longrightarrow>
   ensure_item a dm = (item_id r, append_item_alias_if_needed (ad, r) a dm)"
  by (simp add: ensure_item_def Let_def)

lemma ensure_item_hit_slug:
  "get_item dm (normalize_alias a) = None \<Longrightarrow>
   get_item dm (normalize_alias (slugify a)) = Some (ad, r) \<Longrightarrow>
   ensure_item a dm = (item_id r, append_item_alias_if_needed (ad, r) a dm)"
  by (simp add: ensure_item_def Let_def)

lemma append_item_ids:
  "map item_id (items_table (conn (append_item_alias_if_needed ar a dm)))
     = map item_id (items_table (conn dm))"
  by (cases ar)
     (simp add: append_item_alias_if_needed_def Let_def register_item_alias_def
        update_item_aliases_def comp_def)

lemma get_item_append_same:
  assumes "get_item dm t = Some (ad, r)"
  shows "\<exists>r'. get_item (append_item_alias_if_needed (ad, r) a dm) t = Some (ad, r')
            \<and> item_id r' = item_id r"
  using assms
  by (auto simp: get_item_def append_item_alias_if_needed_def Let_def register_item_alias_def
      split: option.splits)

lemma get_item_append_other:
  assumes "get_item dm t' = Some (ad, r)"
  shows "append_item_alias_if_needed (ad, r) a dm = dm
         \<or> (\<exists>r'. get_item (append_item_alias_if_needed (ad, r) a dm) (normalize_alias a)
               = Some (ad, r') \<and> item_id r' = item_id r)"
  using assms
  by (auto simp: get_item_def append_item_alias_if_needed_def Let_def register_item_alias_def
      split: option.splits)

lemma get_item_create:
  "\<exists>r. get_item (snd (create_item c a dm)) (normalize_alias a)
          = Some (fst (create_item c a dm), r)
       \<and> item_id r = fst (create_item c a dm)"
  by (simp add: create_item_def Let_def insert_item_def register_item_alias_def get_item_def
      split: prod.splits)

lemma ensure_item_resolves: "resolves_to (snd (ensure_item a dm)) a (fst (ensure_item a dm))"
proof (cases "get_item dm (normalize_alias a)")
  case (Some p)
  then obtain ad r where p: "get_item dm (normalize_alias a) = Some (ad, r)" by (cases p) auto
  from get_item_append_same [OF p, of a] ensure_item_hit [OF p]
  show ?thesis by (auto simp: resolves_to_def)
next
  case n1: None
  show ?thesis
  proof (cases "get_item dm (normalize_alias (slugify a))")
    case (Some p)
    then obtain ad r where p: "get_item dm (normalize_alias (slugify a)) = Some (ad, r)"
      by (cases p) auto
    from get_item_append_other [OF p, of a] ensure_item_hit_slug [OF n1 p] n1 p
    show ?thesis by (auto simp: resolves_to_def)
  next
    case None
    with n1 have "ensure_item a dm = create_item (slugify a) a dm"
      by (simp add: ensure_item_unseen unseen_item_def)
    with get_item_create [of "slugify a" a dm] show ?thesis
      by (auto simp: resolves_to_def)
  qed
qed

lemma resolves_to_ensure_item:
  assumes "resolves_to dm a i"
  shows "fst (ensure_item a dm) = i
         \<and> map item_id (items_table (conn (snd (ensure_item a dm))))
             = map item_id (items_table (conn dm))"
  using assms
  by (auto simp: resolves_to_def ensure_item_def Let_def append_item_ids
      split: option.splits)

lemma resolves_to_cong:
  assumes "normalize_alias a1 = normalize_alias a2" "resolves_to dm a1 i"
  shows "resolves_to dm a2 i"
  using assms normalize_alias_slugify [OF assms(1)]
  by (simp add: resolves_to_def cong: option.case_cong)

text \<open>
  C2, amended. In every state of the manager, two aliases with the same token under the
  code's rule \<open>_normalize_alias\<close> resolve to the same item id, and the second resolution
  inserts no item row. With \<open>a2 = a1\<close>: re-resolving an alias never inserts an item.
\<close>

theorem alias_convergence:
  assumes "normalize_alias a1 = normalize_alias a2"
  shows "fst (ensure_item a2 (snd (ensure_item a1 dm))) = fst (ensure_item a1 dm)
         \<and> map item_id (items_table (conn (snd (ensure_item a2 (snd (ensure_item a1 dm))))))
             = map item_id (items_table (conn (snd (ensure_item a1 dm))))"
  by (rule resolves_to_ensure_item)
     (rule resolves_to_cong [OF assms ensure_item_resolves])

text \<open>Witness for C2: \<open>Fuel & Light\<close> and \<open>fuel-light\<close> on the empty database.\<close>

theorem alias_convergence_witness:
  "normalize_alias ''Fuel & Light'' = normalize_alias ''fuel-light''
   \<and> fst (ensure_item ''Fuel & Light'' (DimensionManager empty_database)) = 1
   \<and> fst (ensure_item ''fuel-light''
        (snd (ensure_item ''Fuel & Light'' (DimensionManager empty_database)))) = 1
   \<and> map item_id (items_table (conn (snd (ensure_item ''fuel-light''
        (snd (ensure_item ''Fuel & Light'' (DimensionManager empty_database))))))) = [1]"
proof -
  let ?dm = "DimensionManager empty_database"
  have h: "normalize_alias ''Fuel & Light'' = normalize_alias ''fuel-light''"
    by code_simp
  have e: "fst (ensure_item ''Fuel & Light'' ?dm) = 1"
    "map item_id (items_table (conn (snd (ensure_item ''Fuel & Light'' ?dm)))) = [1]"
    by code_simp+
  from alias_convergence [OF h, of ?dm] e h show ?thesis by simp
qed

subsection \<open>The ingestion engine: retries and the run record\<close>

lemma conn_register_item [simp]: "conn (register_item_alias a alias dm) = conn dm"
  by (simp add: register_item_alias_def)

lemma conn_register_region [simp]: "conn (register_region_alias a alias dm) = conn dm"
  by (simp add: register_region_alias_def)

lemma conn_foldl_register_item [simp]:
  "conn (foldl (\<lambda>dm alias. register_item_alias i alias dm) dm xs) = conn dm"
  by (induction xs arbitrary: dm) simp_all

lemma conn_load_item [simp]: "conn (load_item dm row) = conn dm"
  by (simp add: load_item_def Let_def)

lemma conn_load_region [simp]: "conn (load_region dm row) = conn dm"
  by (simp add: load_region_def Let_def)

lemma conn_foldl_load_item [simp]: "conn (foldl load_item dm rows) = conn dm"
  by (induction rows arbitrary: dm) simp_all

lemma conn_foldl_load_region [simp]: "conn (foldl load_region dm rows) = conn dm"
  by (induction rows arbitrary: dm) simp_all

lemma conn_DimensionManager [simp]: "conn (DimensionManager c) = c"
  by (simp add: DimensionManager_def load_items_def load_regions_def)

lemma same_facts_refl [simp]: "same_facts d d"
  by (simp add: same_facts_def)

lemma same_facts_trans: "same_facts a b \<Longrightarrow> same_facts b c \<Longrightarrow> same_facts a c"
  by (simp add: same_facts_def)

lemma same_facts_append:
  "same_facts (conn dm) (conn (append_item_alias_if_needed ar alias dm))"
  by (cases ar)
     (simp add: append_item_alias_if_needed_def Let_def same_facts_def update_item_aliases_def)

lemma same_facts_create: "same_facts (conn dm) (conn (snd (create_item c alias dm)))"
  by (simp add: create_item_def Let_def same_facts_def insert_item_def split: prod.splits)

lemma same_facts_ensure_item: "same_facts (conn dm) (conn (snd (ensure_item alias dm)))"
  by (simp add: ensure_item_def Let_def same_facts_append same_facts_create
      split: option.splits prod.splits)

lemma same_facts_ensure_region: "same_facts (conn dm) (conn (snd (ensure_region alias dm)))"
  by (simp add: ensure_region_def Let_def same_facts_def insert_region_def
      split: option.splits prod.splits)

lemma runs_process_rows:
  "process_rows f k rows dm = Inr dm' \<Longrightarrow>
   etl_runs_table (conn dm') = etl_runs_table (conn dm)
   \<and> raw_series_table (conn dm') = raw_series_table (conn dm)"
proof (induction rows arbitrary: k dm)
  case Nil
  then show ?case by simp
next
  case (Cons row rows)
  obtain i dm1 where e1: "ensure_item (item_alias row) dm = (i, dm1)" by (cases "ensure_item (item_alias row) dm")
  obtain r dm2 where e2: "ensure_region (region_alias row) dm1 = (r, dm2)" by (cases "ensure_region (region_alias row) dm1")
  have s: "same_facts (conn dm) (conn dm2)"
    using same_facts_ensure_item [of dm "item_alias row"] same_facts_ensure_region [of dm1 "region_alias row"]
    by (simp add: e1 e2 same_facts_def)
  from Cons.prems obtain d where
    "process_rows f (Suc k) rows
        (dm2\<lparr>conn := upsert_series (i, r, d) (index_value row) (conn dm2)\<rparr>) = Inr dm'"
    by (auto simp: e1 e2 Let_def split: option.splits sum.splits)
  from Cons.IH [OF this] s show ?case
    by (simp add: upsert_series_def same_facts_def)
qed

lemma append_log_world [simp]:
  "db (snd (append_log e l m st)) = db (snd st)"
  "txn_count (snd (append_log e l m st)) = txn_count (snd st)"
  "slept (snd (append_log e l m st)) = slept (snd st)"
  "uuid_count (snd (append_log e l m st)) = uuid_count (snd st)"
  "clock_reads (snd (append_log e l m st)) = Suc (clock_reads (snd st))"
  by (simp_all add: append_log_def Let_def split: prod.splits)

lemma process_rows_ok:
  assumes "valid_dates rows"
    and "\<forall>j. k \<le> j \<and> j < k + length rows \<longrightarrow>
           fault_at f (AtResolve j) = None \<and> fault_at f (AtUpsert j) = None"
  shows "\<exists>dm'. process_rows f k rows dm = Inr dm'"
  using assms
proof (induction rows arbitrary: k dm)
  case Nil
  then show ?case by simp
next
  case (Cons row rows)
  from Cons.prems(1) obtain d where d: "first_of_month (year row) (month row) = Inr d"
    and v: "valid_dates rows"
    by (auto simp: valid_dates_def split: sum.splits)
  from Cons.prems(2) have here: "fault_at f (AtResolve k) = None" "fault_at f (AtUpsert k) = None"
    by simp_all
  from Cons.prems(2) have later: "\<forall>j. Suc k \<le> j \<and> j < Suc k + length rows \<longrightarrow>
           fault_at f (AtResolve j) = None \<and> fault_at f (AtUpsert j) = None"
    by simp
  show ?case
    using Cons.IH [OF v later] here d
    by (simp add: Let_def split: prod.splits)
qed

lemma process_rows_fires:
  assumes "valid_dates rows"
    and "f = Some (AtResolve j, msg) \<or> f = Some (AtUpsert j, msg)"
    and "k \<le> j" "j < k + length rows"
  shows "process_rows f k rows dm = Inl (OperationalError msg)"
  using assms
proof (induction rows arbitrary: k dm)
  case Nil
  then show ?case by simp
next
  case (Cons row rows)
  from Cons.prems(1) obtain d where d: "first_of_month (year row) (month row) = Inr d"
    and v: "valid_dates rows"
    by (auto simp: valid_dates_def split: sum.splits)
  show ?case
  proof (cases "j = k")
    case True
    with Cons.prems(2) d show ?thesis
      by (auto simp: fault_at_def Let_def split: prod.splits)
  next
    case False
    with Cons.prems have "Suc k \<le> j" "j < Suc k + length rows" by simp_all
    from Cons.IH [OF v Cons.prems(2) this]
    have "process_rows f (Suc k) rows dm' = Inl (OperationalError msg)" for dm' .
    with False Cons.prems(2) d show ?thesis
      by (auto simp: fault_at_def Let_def split: prod.splits)
  qed
qed

lemma transaction_frame:
  "txn_count (snd (snd (transaction e a fp rows st))) = Suc (txn_count (snd st))
   \<and> slept (snd (snd (transaction e a fp rows st))) = slept (snd st)
   \<and> uuid_count (snd (snd (transaction e a fp rows st))) = uuid_count (snd st)
   \<and> etl_runs_table (db (snd (snd (transaction e a fp rows st)))) = etl_runs_table (db (snd st))"
proof -
  obtain entries w where st: "st = (entries, w)" by (cases st)
  show ?thesis
    unfolding st transaction_def Let_def
    by (auto simp: append_log_def Let_def split: option.splits sum.splits prod.splits
        dest!: runs_process_rows)
qed

lemma transaction_fires:
  assumes "valid_dates rows" "fires (fault e (txn_count w)) (length rows)"
  shows "fst (transaction e a fp rows (entries, w))
           = Some (OperationalError (fault_msg (fault e (txn_count w))))
         \<and> db (snd (snd (transaction e a fp rows (entries, w)))) = db w"
proof -
  from assms(2) obtain p msg where f: "fault e (txn_count w) = Some (p, msg)"
    by (auto simp: fires_def split: option.splits)
  show ?thesis
  proof (cases p)
    case AtBegin
    with f show ?thesis
      by (simp add: transaction_def Let_def fault_at_def fault_msg_def)
  next
    case AtRawInsert
    with f show ?thesis
      by (simp add: transaction_def Let_def fault_at_def fault_msg_def append_log_def)
  next
    case (AtResolve j)
    with f assms(2) have "j < length rows" by (simp add: fires_def)
    then have "process_rows (Some (AtResolve j, msg)) 0 rows dm = Inl (OperationalError msg)" for dm
      using process_rows_fires [OF assms(1), of "Some (AtResolve j, msg)" j msg 0] by simp
    with f AtResolve show ?thesis
      by (simp add: transaction_def Let_def fault_at_def fault_msg_def append_log_def)
  next
    case (AtUpsert j)
    with f assms(2) have "j < length rows" by (simp add: fires_def)
    then have "process_rows (Some (AtUpsert j, msg)) 0 rows dm = Inl (OperationalError msg)" for dm
      using process_rows_fires [OF assms(1), of "Some (AtUpsert j, msg)" j msg 0] by simp
    with f AtUpsert show ?thesis
      by (simp add: transaction_def Let_def fault_at_def fault_msg_def append_log_def)
  next
    case AtCommit
    have "\<exists>dm'. process_rows (Some (AtCommit, msg)) 0 rows dm = Inr dm'" for dm
      by (rule process_rows_ok [OF assms(1)]) (simp add: fault_at_def)
    then obtain dm' where
      "process_rows (Some (AtCommit, msg)) 0 rows
         (DimensionManager ((db w)\<lparr>raw_series_table := raw_series_table (db w) @ raw_payload fp rows\<rparr>))
       = Inr dm'" by blast
    with f AtCommit show ?thesis
      by (simp add: transaction_def Let_def fault_at_def fault_msg_def append_log_def)
  qed
qed

lemma not_fires_fault_at:
  assumes "\<not> fires f n"
  shows "fault_at f AtBegin = None" "fault_at f AtRawInsert = None" "fault_at f AtCommit = None"
    "\<forall>j. 0 \<le> j \<and> j < 0 + n \<longrightarrow> fault_at f (AtResolve j) = None \<and> fault_at f (AtUpsert j) = None"
  using assms
  by (auto simp: fires_def fault_at_def split: option.splits fault_point.splits)

lemma transaction_ok:
  assumes "valid_dates rows" "\<not> fires (fault e (txn_count w)) (length rows)"
  shows "fst (transaction e a fp rows (entries, w)) = None"
proof -
  let ?f = "fault e (txn_count w)"
  note nf = not_fires_fault_at [OF assms(2)]
  obtain dm' where
    "process_rows ?f 0 rows
       (DimensionManager ((db w)\<lparr>raw_series_table := raw_series_table (db w) @ raw_payload fp rows\<rparr>))
     = Inr dm'"
    using process_rows_ok [OF assms(1) nf(4)] by blast
  then show ?thesis
    by (simp add: transaction_def Let_def nf(1-3) append_log_def)
qed

lemma retry_after_world [simp]:
  "db (snd (retry_after e a m st)) = db (snd st)"
  "txn_count (snd (retry_after e a m st)) = txn_count (snd st)"
  "uuid_count (snd (retry_after e a m st)) = uuid_count (snd st)"
  "slept (snd (retry_after e a m st))
     = slept (snd st) @ [min (RETRY_BASE_DELAY_SECONDS * a) 10]"
  by (simp_all add: retry_after_def append_log_def Let_def split: prod.splits)

lemma attempts_commit:
  assumes "attempt \<le> MAX_RETRIES" "fst (transaction e attempt fp rows st) = None"
  shows "attempts e fp rows attempt st = (None, snd (transaction e attempt fp rows st))"
  using assms
  by (subst attempts.simps) (auto split: prod.splits option.splits)

lemma attempts_retry:
  assumes "attempt < MAX_RETRIES"
    "fst (transaction e attempt fp rows st) = Some (OperationalError m)"
  shows "attempts e fp rows attempt st
         = attempts e fp rows (Suc attempt)
             (retry_after e attempt m (snd (transaction e attempt fp rows st)))"
  using assms
  by (subst attempts.simps) (auto split: prod.splits option.splits)

lemma attempts_give_up:
  assumes "attempt = MAX_RETRIES"
    "fst (transaction e attempt fp rows st) = Some (OperationalError m)"
  shows "attempts e fp rows attempt st
         = (Some (OperationalError m),
            append_log e ''error''
              (''Database operation failed after '' @ str_nat attempt @ '' attempts: '' @ m)
              (snd (transaction e attempt fp rows st)))"
  using assms
  by (subst attempts.simps) (auto split: prod.splits option.splits)

text \<open>The retry loop never touches the run table and draws no identifier.\<close>

lemma attempts_frame:
  "etl_runs_table (db (snd (snd (attempts e fp rows attempt st)))) = etl_runs_table (db (snd st))
   \<and> uuid_count (snd (snd (attempts e fp rows attempt st))) = uuid_count (snd st)"
proof (induction e fp rows attempt st rule: attempts.induct)
  case (1 e fp rows attempt st)
  show ?case
  proof (cases "MAX_RETRIES < attempt")
    case True
    then show ?thesis by (subst attempts.simps, subst (2) attempts.simps) simp
  next
    case False
    obtain r st' where t: "transaction e attempt fp rows st = (r, st')"
      by (cases "transaction e attempt fp rows st")
    have fr: "etl_runs_table (db (snd st')) = etl_runs_table (db (snd st))"
      "uuid_count (snd st') = uuid_count (snd st)"
      using transaction_frame [of e attempt fp rows st] by (simp_all add: t)
    show ?thesis
    proof (cases r)
      case None
      with False t fr show ?thesis
        by (simp add: attempts_commit)
    next
      case (Some err)
      show ?thesis
      proof (cases err)
        case (OperationalError m)
        show ?thesis
        proof (cases "attempt = MAX_RETRIES")
          case True
          with Some OperationalError t fr show ?thesis
            by (simp add: attempts_give_up)
        next
          case ne: False
          with False have lt: "attempt < MAX_RETRIES" by simp
          have "attempts e fp rows attempt st
              = attempts e fp rows (Suc attempt) (retry_after e attempt m st')"
            using attempts_retry [OF lt, of e fp rows st m] Some OperationalError t by simp
          moreover have "etl_runs_table (db (snd (snd (attempts e fp rows (Suc attempt)
                (retry_after e attempt m st')))))
              = etl_runs_table (db (snd (retry_after e attempt m st')))
            \<and> uuid_count (snd (snd (attempts e fp rows (Suc attempt)
                (retry_after e attempt m st'))))
              = uuid_count (snd (retry_after e attempt m st'))"
            using "1.IH" [OF False t [symmetric] Some OperationalError ne] .
          ultimately show ?thesis using fr by simp
        qed
      qed (use False Some t fr in \<open>subst attempts.simps, subst (2) attempts.simps, simp\<close>)+
    qed
  qed
qed


lemma attempts_recover:
  assumes "valid_dates rows" "a + K \<le> MAX_RETRIES"
    and "\<forall>k<K. fires (fault e (txn_count w + k)) (length rows)"
    and "\<not> fires (fault e (txn_count w + K)) (length rows)"
  shows "fst (attempts e fp rows a (entries, w)) = None
         \<and> txn_count (snd (snd (attempts e fp rows a (entries, w)))) = txn_count w + K + 1
         \<and> slept (snd (snd (attempts e fp rows a (entries, w))))
             = slept w @ map backoff [a ..< a + K]"
  using assms(2-4)
proof (induction K arbitrary: a entries w)
  case 0
  then have ok: "fst (transaction e a fp rows (entries, w)) = None"
    using transaction_ok [OF assms(1), of e w a fp entries] by simp
  from 0 have "a \<le> MAX_RETRIES" by simp
  from attempts_commit [OF this ok] transaction_frame [of e a fp rows "(entries, w)"]
  show ?case by simp
next
  case (Suc K)
  let ?t = "transaction e a fp rows (entries, w)"
  let ?m = "fault_msg (fault e (txn_count w))"
  from Suc.prems(2) have "fires (fault e (txn_count w)) (length rows)"
    by (metis add.right_neutral zero_less_Suc)
  then have f: "fst ?t = Some (OperationalError ?m)"
    using transaction_fires [OF assms(1), of e w a fp entries] by simp
  from Suc.prems(1) have lt: "a < MAX_RETRIES" by simp
  obtain entries2 w2 where st2: "retry_after e a ?m (snd ?t) = (entries2, w2)"
    by (cases "retry_after e a ?m (snd ?t)")
  have w2: "txn_count w2 = Suc (txn_count w)" "slept w2 = slept w @ [backoff a]"
    using retry_after_world [of e a ?m "snd ?t"] transaction_frame [of e a fp rows "(entries, w)"]
    by (simp_all add: st2 backoff_def)
  have step: "attempts e fp rows a (entries, w) = attempts e fp rows (Suc a) (entries2, w2)"
    using attempts_retry [OF lt f] by (simp add: st2)
  have IH: "fst (attempts e fp rows (Suc a) (entries2, w2)) = None
         \<and> txn_count (snd (snd (attempts e fp rows (Suc a) (entries2, w2)))) = txn_count w2 + K + 1
         \<and> slept (snd (snd (attempts e fp rows (Suc a) (entries2, w2))))
             = slept w2 @ map backoff [Suc a ..< Suc a + K]"
  proof (rule Suc.IH)
    show "Suc a + K \<le> MAX_RETRIES" using Suc.prems(1) by simp
    show "\<forall>k<K. fires (fault e (txn_count w2 + k)) (length rows)"
      using Suc.prems(2) by (simp add: w2) (metis Suc_less_eq add_Suc_right)
    show "\<not> fires (fault e (txn_count w2 + K)) (length rows)"
      using Suc.prems(3) by (simp add: w2)
  qed
  have "[a ..< a + Suc K] = a # [Suc a ..< Suc a + K]"
    by (simp add: upt_rec)
  with IH show ?case
    by (simp add: step w2)
qed

lemma attempts_exhaust:
  assumes "valid_dates rows" "a \<le> MAX_RETRIES" "d = MAX_RETRIES - a"
    and "\<forall>k\<le>d. fires (fault e (txn_count w + k)) (length rows)"
  shows "fst (attempts e fp rows a (entries, w))
           = Some (OperationalError (fault_msg (fault e (txn_count w + d))))
         \<and> txn_count (snd (snd (attempts e fp rows a (entries, w)))) = txn_count w + d + 1
         \<and> slept (snd (snd (attempts e fp rows a (entries, w))))
             = slept w @ map backoff [a ..< MAX_RETRIES]
         \<and> db (snd (snd (attempts e fp rows a (entries, w)))) = db w"
  using assms(2-4)
proof (induction d arbitrary: a entries w)
  case 0
  let ?t = "transaction e a fp rows (entries, w)"
  from 0 have a: "a = MAX_RETRIES" by simp
  from 0 have "fires (fault e (txn_count w)) (length rows)" by simp
  then have f: "fst ?t = Some (OperationalError (fault_msg (fault e (txn_count w))))"
    "db (snd (snd ?t)) = db w"
    using transaction_fires [OF assms(1), of e w a fp entries] by simp_all
  from attempts_give_up [OF a f(1)] f(2) transaction_frame [of e a fp rows "(entries, w)"] a
  show ?case by simp
next
  case (Suc d)
  let ?t = "transaction e a fp rows (entries, w)"
  let ?m = "fault_msg (fault e (txn_count w))"
  from Suc.prems(3) have "fires (fault e (txn_count w)) (length rows)"
    by (metis add.right_neutral le0)
  then have f: "fst ?t = Some (OperationalError ?m)" "db (snd (snd ?t)) = db w"
    using transaction_fires [OF assms(1), of e w a fp entries] by simp_all
  from Suc.prems(2) have lt: "a < MAX_RETRIES" by simp
  obtain entries2 w2 where st2: "retry_after e a ?m (snd ?t) = (entries2, w2)"
    by (cases "retry_after e a ?m (snd ?t)")
  have w2: "txn_count w2 = Suc (txn_count w)" "slept w2 = slept w @ [backoff a]" "db w2 = db w"
    using retry_after_world [of e a ?m "snd ?t"] transaction_frame [of e a fp rows "(entries, w)"]
      f(2)
    by (simp_all add: st2 backoff_def)
  have step: "attempts e fp rows a (entries, w) = attempts e fp rows (Suc a) (entries2, w2)"
    using attempts_retry [OF lt f(1)] by (simp add: st2)
  have IH: "fst (attempts e fp rows (Suc a) (entries2, w2))
           = Some (OperationalError (fault_msg (fault e (txn_count w2 + d))))
         \<and> txn_count (snd (snd (attempts e fp rows (Suc a) (entries2, w2)))) = txn_count w2 + d + 1
         \<and> slept (snd (snd (attempts e fp rows (Suc a) (entries2, w2))))
             = slept w2 @ map backoff [Suc a ..< MAX_RETRIES]
         \<and> db (snd (snd (attempts e fp rows (Suc a) (entries2, w2)))) = db w2"
  proof (rule Suc.IH)
    show "Suc a \<le> MAX_RETRIES" using lt by simp
    show "d = MAX_RETRIES - Suc a" using Suc.prems(2) by simp
    show "\<forall>k\<le>d. fires (fault e (txn_count w2 + k)) (length rows)"
      using Suc.prems(3) by (simp add: w2) (metis Suc_le_mono add_Suc_right)
  qed
  have "[a ..< MAX_RETRIES] = a # [Suc a ..< MAX_RETRIES]"
    using lt by (simp add: upt_rec)
  with IH show ?case
    by (simp add: step w2)
qed

lemma attempts_recover_st:
  assumes "valid_dates rows" "a + K \<le> MAX_RETRIES"
    and "\<forall>k<K. fires (fault e (txn_count (snd st) + k)) (length rows)"
    and "\<not> fires (fault e (txn_count (snd st) + K)) (length rows)"
  shows "fst (attempts e fp rows a st) = None
         \<and> txn_count (snd (snd (attempts e fp rows a st))) = txn_count (snd st) + K + 1
         \<and> slept (snd (snd (attempts e fp rows a st))) = slept (snd st) @ map backoff [a ..< a + K]"
  using attempts_recover [of rows a K e "snd st" fp "fst st"] assms by simp

lemma attempts_exhaust_st:
  assumes "valid_dates rows" "a \<le> MAX_RETRIES" "d = MAX_RETRIES - a"
    and "\<forall>k\<le>d. fires (fault e (txn_count (snd st) + k)) (length rows)"
  shows "fst (attempts e fp rows a st)
           = Some (OperationalError (fault_msg (fault e (txn_count (snd st) + d))))
         \<and> txn_count (snd (snd (attempts e fp rows a st))) = txn_count (snd st) + d + 1
         \<and> slept (snd (snd (attempts e fp rows a st))) = slept (snd st) @ map backoff [a ..< MAX_RETRIES]
         \<and> db (snd (snd (attempts e fp rows a st))) = db (snd st)"
  using attempts_exhaust [of rows a d e "snd st" fp "fst st"] assms by simp

lemma ingest_body_frame:
  "etl_runs_table (db (snd (snd (ingest_body e fp rows w)))) = etl_runs_table (db w)
   \<and> uuid_count (snd (snd (ingest_body e fp rows w))) = uuid_count w"
proof -
  let ?st = "append_log e ''info''
      (''Starting database ingestion for '' @ str_nat (length rows) @ '' rows'') ([], w)"
  obtain r st' where a: "attempts e fp rows 1 ?st = (r, st')"
    by (cases "attempts e fp rows 1 ?st")
  from attempts_frame [of e fp rows 1 ?st] a
  have "etl_runs_table (db (snd st')) = etl_runs_table (db w)" "uuid_count (snd st') = uuid_count w"
    by simp_all
  with a show ?thesis
    by (cases r) (simp_all add: ingest_body_def Let_def)
qed

lemma ingest_body_recover:
  assumes "valid_dates rows" "K < MAX_RETRIES"
    and "\<forall>k<K. fires (fault e (txn_count w + k)) (length rows)"
    and "\<not> fires (fault e (txn_count w + K)) (length rows)"
  shows "fst (ingest_body e fp rows w) = None
         \<and> txn_count (snd (snd (ingest_body e fp rows w))) = txn_count w + K + 1
         \<and> slept (snd (snd (ingest_body e fp rows w))) = slept w @ map backoff [1 ..< Suc K]"
proof -
  let ?st = "append_log e ''info''
      (''Starting database ingestion for '' @ str_nat (length rows) @ '' rows'') ([], w)"
  have "fst (attempts e fp rows 1 ?st) = None
         \<and> txn_count (snd (snd (attempts e fp rows 1 ?st))) = txn_count (snd ?st) + K + 1
         \<and> slept (snd (snd (attempts e fp rows 1 ?st))) = slept (snd ?st) @ map backoff [1 ..< 1 + K]"
    using assms by (intro attempts_recover_st) simp_all
  then show ?thesis
    by (cases "attempts e fp rows 1 ?st") (simp add: ingest_body_def Let_def)
qed

lemma ingest_body_exhaust:
  assumes "valid_dates rows"
    and "\<forall>k<MAX_RETRIES. fires (fault e (txn_count w + k)) (length rows)"
  shows "fst (ingest_body e fp rows w)
           = Some (OperationalError (fault_msg (fault e (txn_count w + (MAX_RETRIES - 1)))))
         \<and> txn_count (snd (snd (ingest_body e fp rows w))) = txn_count w + MAX_RETRIES
         \<and> slept (snd (snd (ingest_body e fp rows w))) = slept w @ map backoff [1 ..< MAX_RETRIES]
         \<and> db (snd (snd (ingest_body e fp rows w))) = db w"
proof -
  let ?st = "append_log e ''info''
      (''Starting database ingestion for '' @ str_nat (length rows) @ '' rows'') ([], w)"
  have "fst (attempts e fp rows 1 ?st)
           = Some (OperationalError (fault_msg (fault e (txn_count (snd ?st) + (MAX_RETRIES - 1)))))
         \<and> txn_count (snd (snd (attempts e fp rows 1 ?st))) = txn_count (snd ?st) + (MAX_RETRIES - 1) + 1
         \<and> slept (snd (snd (attempts e fp rows 1 ?st))) = slept (snd ?st) @ map backoff [1 ..< MAX_RETRIES]
         \<and> db (snd (snd (attempts e fp rows 1 ?st))) = db (snd ?st)"
    using assms by (intro attempts_exhaust_st) (simp_all add: MAX_RETRIES_def)
  then show ?thesis
    by (cases "attempts e fp rows 1 ?st") (auto simp: ingest_body_def Let_def MAX_RETRIES_def)
qed

lemma record_run_ok:
  assumes "fault e (txn_count w) = None"
  shows "db (record_run e rid started cks status (entries, w))
           = (db w)\<lparr>etl_runs_table := etl_runs_table (db w)
               @ [\<lparr>run_id = rid, started_at = started, finished_at = clock e (clock_reads w),
                   run_status = status, checksum = cks,
                   log = take MAX_LOG_CHARS (join [CHR 0x0A] entries)\<rparr>]\<rparr>"
    and "slept (record_run e rid started cks status (entries, w)) = slept w"
    and "logger (record_run e rid started cks status (entries, w)) = logger w"
  using assms by (simp_all add: record_run_def Let_def)

lemma record_run_failed:
  assumes "fault e (txn_count w) \<noteq> None"
  shows "db (record_run e rid started cks status (entries, w)) = db w"
    and "slept (record_run e rid started cks status (entries, w)) = slept w"
    and "logger (record_run e rid started cks status (entries, w))
           = logger w @ [(''error'', ''Failed to record ETL run metadata: ''
                                        @ fault_msg (fault e (txn_count w)))]"
    and "txn_count (record_run e rid started cks status (entries, w)) = Suc (txn_count w)"
  using assms by (auto simp: record_run_def Let_def fault_msg_def split: option.splits)

lemma ingest_with_engine_unfold:
  assumes "ingest_body e fp rows
             (w\<lparr>uuid_count := Suc (uuid_count w), clock_reads := Suc (clock_reads w)\<rparr>)
           = (raised, entries, w1)"
  shows "fst (ingest_with_engine e fp rows cks w)
           = (case raised of
                Some err \<Rightarrow> Inl err
              | None \<Rightarrow> Inr \<lparr>result_run_id = uuid4 e (uuid_count w),
                             result_status = ''success'', rows_processed = length rows\<rparr>)"
    and "snd (ingest_with_engine e fp rows cks w)
           = record_run e (uuid4 e (uuid_count w)) (clock e (clock_reads w)) cks
               (if raised = None then ''success'' else ''failed'') (entries, w1)"
  using assms
  by (simp_all add: ingest_with_engine_def Let_def split: option.splits)

lemma backoff_eq: "backoff = (\<lambda>attempt. min (2 * attempt) 10)"
  by (rule ext) (simp add: backoff_def RETRY_BASE_DELAY_SECONDS_def)

lemma ingest_recover:
  assumes "valid_dates rows" "K < MAX_RETRIES"
    and "\<forall>k<K. fires (fault e (txn_count w + k)) (length rows)"
    and "\<not> fires (fault e (txn_count w + K)) (length rows)"
    and "fault e (txn_count w + K + 1) = None"
  shows "fst (ingest_with_engine e fp rows cks w)
              = Inr \<lparr>result_run_id = uuid4 e (uuid_count w), result_status = ''success'',
                     rows_processed = length rows\<rparr>
            \<and> map run_status (etl_runs_table (db (snd (ingest_with_engine e fp rows cks w))))
                = map run_status (etl_runs_table (db w)) @ [''success'']
            \<and> slept (snd (ingest_with_engine e fp rows cks w))
                = slept w @ map (\<lambda>attempt. min (2 * attempt) 10) [1 ..< Suc K]"
proof -
  let ?w0 = "w\<lparr>uuid_count := Suc (uuid_count w), clock_reads := Suc (clock_reads w)\<rparr>"
  obtain raised entries w1 where b: "ingest_body e fp rows ?w0 = (raised, entries, w1)"
    by (cases "ingest_body e fp rows ?w0") auto
  note u = ingest_with_engine_unfold [OF b, of cks]
  have fr: "etl_runs_table (db w1) = etl_runs_table (db w)"
    using ingest_body_frame [of e fp rows ?w0] by (simp add: b)
  have "fst (ingest_body e fp rows ?w0) = None
         \<and> txn_count (snd (snd (ingest_body e fp rows ?w0))) = txn_count ?w0 + K + 1
         \<and> slept (snd (snd (ingest_body e fp rows ?w0))) = slept ?w0 @ map backoff [1 ..< Suc K]"
    using assms by (intro ingest_body_recover) simp_all
  then have r: "raised = None" "txn_count w1 = txn_count w + K + 1"
    "slept w1 = slept w @ map backoff [1 ..< Suc K]"
    by (simp_all add: b)
  from assms(5) r(2) have "fault e (txn_count w1) = None" by simp
  from record_run_ok [OF this] r fr show ?thesis
    by (simp add: u backoff_eq)
qed

lemma ingest_exhaust:
  assumes "valid_dates rows"
    and "\<forall>k<MAX_RETRIES. fires (fault e (txn_count w + k)) (length rows)"
  shows "fst (ingest_with_engine e fp rows cks w)
              = Inl (OperationalError (fault_msg (fault e (txn_count w + 2))))
            \<and> slept (snd (ingest_with_engine e fp rows cks w)) = slept w @ [2, 4]
            \<and> etl_runs_table (db (snd (ingest_with_engine e fp rows cks w)))
                = etl_runs_table (db w)
                  @ (if fault e (txn_count w + 3) = None
                     then [\<lparr>run_id = uuid4 e (uuid_count w), started_at = clock e (clock_reads w),
                            finished_at = clock e (clock_reads (snd (snd (ingest_body e fp rows
                              (w\<lparr>uuid_count := Suc (uuid_count w),
                                 clock_reads := Suc (clock_reads w)\<rparr>))))),
                            run_status = ''failed'', checksum = cks,
                            log = take MAX_LOG_CHARS (join [CHR 0x0A] (fst (snd (ingest_body e fp rows
                              (w\<lparr>uuid_count := Suc (uuid_count w),
                                 clock_reads := Suc (clock_reads w)\<rparr>)))))\<rparr>]
                     else [])"
proof -
  let ?w0 = "w\<lparr>uuid_count := Suc (uuid_count w), clock_reads := Suc (clock_reads w)\<rparr>"
  obtain raised entries w1 where b: "ingest_body e fp rows ?w0 = (raised, entries, w1)"
    by (cases "ingest_body e fp rows ?w0") auto
  note u = ingest_with_engine_unfold [OF b, of cks]
  have fr: "etl_runs_table (db w1) = etl_runs_table (db w)"
    using ingest_body_frame [of e fp rows ?w0] by (simp add: b)
  have "fst (ingest_body e fp rows ?w0)
           = Some (OperationalError (fault_msg (fault e (txn_count ?w0 + (MAX_RETRIES - 1)))))
         \<and> txn_count (snd (snd (ingest_body e fp rows ?w0))) = txn_count ?w0 + MAX_RETRIES
         \<and> slept (snd (snd (ingest_body e fp rows ?w0))) = slept ?w0 @ map backoff [1 ..< MAX_RETRIES]
         \<and> db (snd (snd (ingest_body e fp rows ?w0))) = db ?w0"
    using assms by (intro ingest_body_exhaust) simp_all
  then have r: "raised = Some (OperationalError (fault_msg (fault e (txn_count w + 2))))"
    "txn_count w1 = txn_count w + 3" "slept w1 = slept w @ map backoff [1 ..< 3]"
    by (simp_all add: b MAX_RETRIES_def)
  have sl: "map backoff [1 ..< 3] = [2, 4]"
    by (simp add: backoff_eq upt_rec)
  show ?thesis
  proof (cases "fault e (txn_count w + 3) = None")
    case True
    with r(2) have "fault e (txn_count w1) = None" by simp
    from record_run_ok [OF this] r fr sl True show ?thesis
      by (simp add: u b)
  next
    case False
    with r(2) have "fault e (txn_count w1) \<noteq> None" by simp
    from record_run_failed [OF this] r fr sl False show ?thesis
      by (simp add: u)
  qed
qed

text \<open>
  C3, amended. For every batch whose rows have valid dates: if the storage transaction
  fails transiently on \<open>K < 3\<close> attempts, then commits, and the run-record insertion after
  it succeeds, \<open>ingest_with_engine\<close> returns normally with status \<open>success\<close>, appends
  exactly one run record, of status \<open>success\<close>, and has slept
  \<open>min (2 * attempt) 10\<close> seconds before each retry. If the transaction fails on all three
  attempts, the last error reaches the caller after sleeps of 2 and 4 seconds, and one run
  record of status \<open>failed\<close> is appended when the run-record insertion succeeds, none
  when it fails as well.
\<close>

theorem retry_bound:
  assumes "valid_dates rows"
  shows "(K < MAX_RETRIES
          \<and> (\<forall>k<K. fires (fault e (txn_count w + k)) (length rows))
          \<and> \<not> fires (fault e (txn_count w + K)) (length rows)
          \<and> fault e (txn_count w + K + 1) = None \<longrightarrow>
            fst (ingest_with_engine e fp rows cks w)
              = Inr \<lparr>result_run_id = uuid4 e (uuid_count w), result_status = ''success'',
                     rows_processed = length rows\<rparr>
            \<and> map run_status (etl_runs_table (db (snd (ingest_with_engine e fp rows cks w))))
                = map run_status (etl_runs_table (db w)) @ [''success'']
            \<and> slept (snd (ingest_with_engine e fp rows cks w))
                = slept w @ map (\<lambda>attempt. min (2 * attempt) 10) [1 ..< Suc K])
         \<and> ((\<forall>k<MAX_RETRIES. fires (fault e (txn_count w + k)) (length rows)) \<longrightarrow>
            fst (ingest_with_engine e fp rows cks w)
              = Inl (OperationalError (fault_msg (fault e (txn_count w + 2))))
            \<and> slept (snd (ingest_with_engine e fp rows cks w)) = slept w @ [2, 4]
            \<and> map run_status (etl_runs_table (db (snd (ingest_with_engine e fp rows cks w))))
                = map run_status (etl_runs_table (db w))
                  @ (if fault e (txn_count w + 3) = None then [''failed''] else []))"
proof (intro conjI impI)
  assume h: "K < MAX_RETRIES
          \<and> (\<forall>k<K. fires (fault e (txn_count w + k)) (length rows))
          \<and> \<not> fires (fault e (txn_count w + K)) (length rows)
          \<and> fault e (txn_count w + K + 1) = None"
  note r = ingest_recover [OF assms, of K e w fp cks]
  from h r show "fst (ingest_with_engine e fp rows cks w)
              = Inr \<lparr>result_run_id = uuid4 e (uuid_count w), result_status = ''success'',
                     rows_processed = length rows\<rparr>" by blast
  from h r show "map run_status (etl_runs_table (db (snd (ingest_with_engine e fp rows cks w))))
                = map run_status (etl_runs_table (db w)) @ [''success'']" by blast
  from h r show "slept (snd (ingest_with_engine e fp rows cks w))
                = slept w @ map (\<lambda>attempt. min (2 * attempt) 10) [1 ..< Suc K]" by blast
next
  assume h: "\<forall>k<MAX_RETRIES. fires (fault e (txn_count w + k)) (length rows)"
  note r = ingest_exhaust [OF assms h, of fp cks]
  from r show "fst (ingest_with_engine e fp rows cks w)
              = Inl (OperationalError (fault_msg (fault e (txn_count w + 2))))" by blast
  from r show "slept (snd (ingest_with_engine e fp rows cks w)) = slept w @ [2, 4]" by blast
  from r show "map run_status (etl_runs_table (db (snd (ingest_with_engine e fp rows cks w))))
                = map run_status (etl_runs_table (db w))
                  @ (if fault e (txn_count w + 3) = None then [''failed''] else [])"
    by simp
qed

text \<open>
  C3, as stated, fails: when the storage layer is still failing after the third attempt,
  the error reaches the caller but the run-record insertion fails too, and no run record
  with status \<open>failed\<close> exists afterwards.
\<close>

theorem retry_bound_counterexample:
  "valid_dates sample_rows
   \<and> fst (ingest_with_engine (test_env (\<lambda>k. Some (AtBegin, ''connection lost'')))
            ''annex.xlsx'' sample_rows ''c0ffee'' (initial_world empty_database))
       = Inl (OperationalError ''connection lost'')
   \<and> etl_runs_table (db (snd (ingest_with_engine
            (test_env (\<lambda>k. Some (AtBegin, ''connection lost'')))
            ''annex.xlsx'' sample_rows ''c0ffee'' (initial_world empty_database)))) = []"
proof -
  let ?e = "test_env (\<lambda>k. Some (AtBegin, ''connection lost''))"
  let ?w = "initial_world empty_database"
  have v: "valid_dates sample_rows" by code_simp
  have e: "fault ?e = (\<lambda>k. Some (AtBegin, ''connection lost''))"
    by (simp add: test_env_def)
  have w: "etl_runs_table (db ?w) = []"
    by (simp add: initial_world_def empty_database_def)
  have "\<forall>k<MAX_RETRIES. fires (fault ?e (txn_count ?w + k)) (length sample_rows)"
    by (simp add: e fires_def)
  from ingest_exhaust [OF v this, of "''annex.xlsx''" "''c0ffee''"] v show ?thesis
    by (simp add: e w fault_msg_def)
qed

text \<open>
  Witness for C3: two serialization failures at commit followed by success, and three
  connection losses followed by a working run-record insertion.
\<close>

theorem retry_bound_witness:
  "valid_dates sample_rows
   \<and> fst (ingest_with_engine
            (test_env (\<lambda>k. if k < 2 then Some (AtCommit, ''serialization failure'') else None))
            ''annex.xlsx'' sample_rows ''c0ffee'' (initial_world empty_database))
       = Inr \<lparr>result_run_id = ''run-0'', result_status = ''success'', rows_processed = 4\<rparr>
   \<and> map run_status (etl_runs_table (db (snd (ingest_with_engine
            (test_env (\<lambda>k. if k < 2 then Some (AtCommit, ''serialization failure'') else None))
            ''annex.xlsx'' sample_rows ''c0ffee'' (initial_world empty_database)))))
       = [''success'']
   \<and> slept (snd (ingest_with_engine
            (test_env (\<lambda>k. if k < 2 then Some (AtCommit, ''serialization failure'') else None))
            ''annex.xlsx'' sample_rows ''c0ffee'' (initial_world empty_database))) = [2, 4]
   \<and> fst (ingest_with_engine
            (test_env (\<lambda>k. if k < 3 then Some (AtBegin, ''connection lost'') else None))
            ''annex.xlsx'' sample_rows ''c0ffee'' (initial_world empty_database))
       = Inl (OperationalError ''connection lost'')
   \<and> map run_status (etl_runs_table (db (snd (ingest_with_engine
            (test_env (\<lambda>k. if k < 3 then Some (AtBegin, ''connection lost'') else None))
            ''annex.xlsx'' sample_rows ''c0ffee'' (initial_world empty_database)))))
       = [''failed'']"
proof -
  let ?e2 = "test_env (\<lambda>k. if k < 2 then Some (AtCommit, ''serialization failure'') else None)"
  let ?e3 = "test_env (\<lambda>k. if k < 3 then Some (AtBegin, ''connection lost'') else None)"
  let ?w = "initial_world empty_database"
  have v: "valid_dates sample_rows" by code_simp
  have n: "length sample_rows = 4" by (simp add: sample_rows_def)
  have w: "txn_count ?w = 0" "slept ?w = []" "etl_runs_table (db ?w) = []" "uuid_count ?w = 0"
    by (simp_all add: initial_world_def empty_database_def)
  have e: "fault (test_env f) = f" "uuid4 (test_env f) 0 = ''run-0''" for f
    by (simp_all add: test_env_def str_nat.simps digit_char_def)
  have f: "fires (Some (AtCommit, m)) 4" "fires (Some (AtBegin, m)) 4" "\<not> fires None 4" for m
    by (simp_all add: fires_def)
  have s: "map (\<lambda>attempt. min (2 * attempt) 10) [1 ..< Suc 2] = [2, 4::nat]"
    by (simp add: upt_rec)
  have a: "fst (ingest_with_engine ?e2 ''annex.xlsx'' sample_rows ''c0ffee'' ?w)
       = Inr \<lparr>result_run_id = ''run-0'', result_status = ''success'', rows_processed = 4\<rparr>
     \<and> map run_status (etl_runs_table (db (snd (ingest_with_engine ?e2 ''annex.xlsx''
          sample_rows ''c0ffee'' ?w)))) = [''success'']
     \<and> slept (snd (ingest_with_engine ?e2 ''annex.xlsx'' sample_rows ''c0ffee'' ?w)) = [2, 4]"
    using retry_bound [OF v, of 2 ?e2 ?w "''annex.xlsx''" "''c0ffee''"] s
    by (simp add: n w e f MAX_RETRIES_def)
  have b: "fst (ingest_with_engine ?e3 ''annex.xlsx'' sample_rows ''c0ffee'' ?w)
       = Inl (OperationalError ''connection lost'')
     \<and> map run_status (etl_runs_table (db (snd (ingest_with_engine ?e3 ''annex.xlsx''
          sample_rows ''c0ffee'' ?w)))) = [''failed'']"
    using retry_bound [OF v, of 2 ?e3 ?w "''annex.xlsx''" "''c0ffee''"]
    by (simp add: n w e f MAX_RETRIES_def fault_msg_def)
  from v a b show ?thesis by simp
qed

lemma ingest_recover_unrecorded:
  assumes "valid_dates rows" "K < MAX_RETRIES"
    and "\<forall>k<K. fires (fault e (txn_count w + k)) (length rows)"
    and "\<not> fires (fault e (txn_count w + K)) (length rows)"
    and "fault e (txn_count w + K + 1) \<noteq> None"
  shows "fst (ingest_with_engine e fp rows cks w)
              = Inr \<lparr>result_run_id = uuid4 e (uuid_count w), result_status = ''success'',
                     rows_processed = length rows\<rparr>
         \<and> etl_runs_table (db (snd (ingest_with_engine e fp rows cks w)))
              = etl_runs_table (db w)"
proof -
  let ?w0 = "w\<lparr>uuid_count := Suc (uuid_count w), clock_reads := Suc (clock_reads w)\<rparr>"
  obtain raised entries w1 where b: "ingest_body e fp rows ?w0 = (raised, entries, w1)"
    by (cases "ingest_body e fp rows ?w0") auto
  note u = ingest_with_engine_unfold [OF b, of cks]
  have fr: "etl_runs_table (db w1) = etl_runs_table (db w)"
    using ingest_body_frame [of e fp rows ?w0] by (simp add: b)
  have "fst (ingest_body e fp rows ?w0) = None
         \<and> txn_count (snd (snd (ingest_body e fp rows ?w0))) = txn_count ?w0 + K + 1
         \<and> slept (snd (snd (ingest_body e fp rows ?w0))) = slept ?w0 @ map backoff [1 ..< Suc K]"
    using assms by (intro ingest_body_recover) simp_all
  then have r: "raised = None" "txn_count w1 = txn_count w + K + 1"
    by (simp_all add: b)
  from assms(5) r(2) have "fault e (txn_count w1) \<noteq> None" by simp
  from record_run_failed(1) [OF this] r fr show ?thesis
    by (simp add: u)
qed

text \<open>
  C4, as stated, fails: the ingestion commits and returns normally, the insertion of the
  run record fails, and no run record exists afterwards.
\<close>

theorem run_record_counterexample:
  "fst (ingest_with_engine
          (test_env (\<lambda>k. if k = 1 then Some (AtBegin, ''connection lost'') else None))
          ''annex.xlsx'' sample_rows ''c0ffee'' (initial_world empty_database))
     = Inr \<lparr>result_run_id = ''run-0'', result_status = ''success'', rows_processed = 4\<rparr>
   \<and> etl_runs_table (db (snd (ingest_with_engine
          (test_env (\<lambda>k. if k = 1 then Some (AtBegin, ''connection lost'') else None))
          ''annex.xlsx'' sample_rows ''c0ffee'' (initial_world empty_database)))) = []"
proof -
  let ?e = "test_env (\<lambda>k. if k = 1 then Some (AtBegin, ''connection lost'') else None)"
  let ?w = "initial_world empty_database"
  have v: "valid_dates sample_rows" by code_simp
  have u: "uuid4 ?e (uuid_count ?w) = ''run-0''"
    by (simp add: test_env_def initial_world_def str_nat.simps digit_char_def)
  have "fst (ingest_with_engine ?e ''annex.xlsx'' sample_rows ''c0ffee'' ?w)
              = Inr \<lparr>result_run_id = uuid4 ?e (uuid_count ?w), result_status = ''success'',
                     rows_processed = length sample_rows\<rparr>
         \<and> etl_runs_table (db (snd (ingest_with_engine ?e ''annex.xlsx'' sample_rows ''c0ffee'' ?w)))
              = etl_runs_table (db ?w)"
    by (rule ingest_recover_unrecorded [OF v, of 0])
       (simp_all add: MAX_RETRIES_def test_env_def initial_world_def fires_def)
  moreover have "length sample_rows = 4" by (simp add: sample_rows_def)
  moreover have "etl_runs_table (db ?w) = []"
    by (simp add: initial_world_def empty_database_def)
  ultimately show ?thesis using u by simp
qed

text \<open>
  C4, amended. Whether the \<open>try\<close> body of \<open>ingest_with_engine\<close> ends normally or raises,
  the caller gets exactly that outcome, the body itself writes no run record, and
  \<open>record_run\<close> begins one transaction: if it succeeds, exactly one run record is
  appended, with the run id, the clock readings at the start and at the end, the final
  status, the supplied checksum and the first \<open>MAX_LOG_CHARS\<close> = 65536 characters of the
  joined log; if it fails, no run record is appended, the failure is logged once and not
  retried.
\<close>

theorem run_record_postcondition:
  "(let w0 = w\<lparr>uuid_count := Suc (uuid_count w), clock_reads := Suc (clock_reads w)\<rparr>;
        raised = fst (ingest_body e fp rows w0);
        entries = fst (snd (ingest_body e fp rows w0));
        w1 = snd (snd (ingest_body e fp rows w0));
        res = fst (ingest_with_engine e fp rows cks w);
        w' = snd (ingest_with_engine e fp rows cks w)
    in res = (case raised of
                Some err \<Rightarrow> Inl err
              | None \<Rightarrow> Inr \<lparr>result_run_id = uuid4 e (uuid_count w),
                             result_status = ''success'', rows_processed = length rows\<rparr>)
       \<and> etl_runs_table (db w1) = etl_runs_table (db w)
       \<and> (fault e (txn_count w1) = None \<longrightarrow>
            etl_runs_table (db w')
              = etl_runs_table (db w)
                @ [\<lparr>run_id = uuid4 e (uuid_count w), started_at = clock e (clock_reads w),
                    finished_at = clock e (clock_reads w1),
                    run_status = (if raised = None then ''success'' else ''failed''),
                    checksum = cks, log = take MAX_LOG_CHARS (join [CHR 0x0A] entries)\<rparr>]
            \<and> length (log (last (etl_runs_table (db w')))) \<le> 65536)
       \<and> (fault e (txn_count w1) \<noteq> None \<longrightarrow>
            etl_runs_table (db w') = etl_runs_table (db w)
            \<and> logger w'
                = logger w1 @ [(''error'', ''Failed to record ETL run metadata: ''
                                             @ fault_msg (fault e (txn_count w1)))]
            \<and> txn_count w' = Suc (txn_count w1)))"
proof -
  let ?w0 = "w\<lparr>uuid_count := Suc (uuid_count w), clock_reads := Suc (clock_reads w)\<rparr>"
  obtain raised entries w1 where b: "ingest_body e fp rows ?w0 = (raised, entries, w1)"
    by (cases "ingest_body e fp rows ?w0") auto
  note u = ingest_with_engine_unfold [OF b, of cks]
  have fr: "etl_runs_table (db w1) = etl_runs_table (db w)"
    using ingest_body_frame [of e fp rows ?w0] by (simp add: b)
  have ok: "etl_runs_table (db (snd (ingest_with_engine e fp rows cks w)))
          = etl_runs_table (db w)
            @ [\<lparr>run_id = uuid4 e (uuid_count w), started_at = clock e (clock_reads w),
                finished_at = clock e (clock_reads w1),
                run_status = (if raised = None then ''success'' else ''failed''),
                checksum = cks, log = take MAX_LOG_CHARS (join [CHR 0x0A] entries)\<rparr>]
        \<and> length (log (last (etl_runs_table (db (snd (ingest_with_engine e fp rows cks w))))))
            \<le> 65536"
    if "fault e (txn_count w1) = None"
    using record_run_ok(1) [OF that] fr by (simp add: u MAX_LOG_CHARS_def)
  have bad: "etl_runs_table (db (snd (ingest_with_engine e fp rows cks w))) = etl_runs_table (db w)
        \<and> logger (snd (ingest_with_engine e fp rows cks w))
            = logger w1 @ [(''error'', ''Failed to record ETL run metadata: ''
                                         @ fault_msg (fault e (txn_count w1)))]
        \<and> txn_count (snd (ingest_with_engine e fp rows cks w)) = Suc (txn_count w1)"
    if "fault e (txn_count w1) \<noteq> None"
    using record_run_failed [OF that] fr by (simp add: u)
  from u(1) fr show ?thesis
    unfolding Let_def b fst_conv snd_conv
    by (intro conjI impI) (simp_all add: ok bad MAX_LOG_CHARS_def)
qed

text \<open>
  Witness for C4: a run without faults records one \<open>success\<close> row; a run whose storage
  never recovers records nothing after four transactions.
\<close>

theorem run_record_postcondition_witness:
  "fault (test_env (\<lambda>k. None)) 1 = None
   \<and> map run_status (etl_runs_table (db (snd (ingest_with_engine (test_env (\<lambda>k. None))
        ''annex.xlsx'' sample_rows ''c0ffee'' (initial_world empty_database))))) = [''success'']
   \<and> map checksum (etl_runs_table (db (snd (ingest_with_engine (test_env (\<lambda>k. None))
        ''annex.xlsx'' sample_rows ''c0ffee'' (initial_world empty_database))))) = [''c0ffee'']
   \<and> fault (test_env (\<lambda>k. Some (AtBegin, ''connection lost''))) 3 \<noteq> None
   \<and> etl_runs_table (db (snd (ingest_with_engine
        (test_env (\<lambda>k. Some (AtBegin, ''connection lost'')))
        ''annex.xlsx'' sample_rows ''c0ffee'' (initial_world empty_database)))) = []
   \<and> txn_count (snd (ingest_with_engine
        (test_env (\<lambda>k. Some (AtBegin, ''connection lost'')))
        ''annex.xlsx'' sample_rows ''c0ffee'' (initial_world empty_database))) = 4"
proof -
  let ?e = "test_env (\<lambda>k. None)"
  let ?d = "test_env (\<lambda>k. Some (AtBegin, ''connection lost''))"
  let ?w = "initial_world empty_database"
  let ?start = "?w\<lparr>uuid_count := Suc (uuid_count ?w), clock_reads := Suc (clock_reads ?w)\<rparr>"
  have v: "valid_dates sample_rows" by code_simp
  have e: "fault ?e = (\<lambda>k. None)" "fault ?d = (\<lambda>k. Some (AtBegin, ''connection lost''))"
    by (simp_all add: test_env_def)
  have w: "txn_count ?start = 0" "etl_runs_table (db ?w) = []"
    by (simp_all add: initial_world_def empty_database_def)
  have "fst (ingest_body ?e ''annex.xlsx'' sample_rows ?start) = None
         \<and> txn_count (snd (snd (ingest_body ?e ''annex.xlsx'' sample_rows ?start))) = txn_count ?start + 0 + 1
         \<and> slept (snd (snd (ingest_body ?e ''annex.xlsx'' sample_rows ?start)))
             = slept ?start @ map backoff [1 ..< Suc 0]"
    by (rule ingest_body_recover [OF v]) (simp_all add: MAX_RETRIES_def test_env_def initial_world_def fires_def)
  then have r: "fst (ingest_body ?e ''annex.xlsx'' sample_rows ?start) = None"
    "txn_count (snd (snd (ingest_body ?e ''annex.xlsx'' sample_rows ?start))) = 1"
    by (simp_all add: w)
  have "fst (ingest_body ?d ''annex.xlsx'' sample_rows ?start)
           = Some (OperationalError (fault_msg (fault ?d (txn_count ?start + (MAX_RETRIES - 1)))))
         \<and> txn_count (snd (snd (ingest_body ?d ''annex.xlsx'' sample_rows ?start))) = txn_count ?start + MAX_RETRIES
         \<and> slept (snd (snd (ingest_body ?d ''annex.xlsx'' sample_rows ?start))) = slept ?start @ map backoff [1 ..< MAX_RETRIES]
         \<and> db (snd (snd (ingest_body ?d ''annex.xlsx'' sample_rows ?start))) = db ?start"
    by (rule ingest_body_exhaust [OF v]) (simp_all add: test_env_def initial_world_def fires_def)
  then have x: "txn_count (snd (snd (ingest_body ?d ''annex.xlsx'' sample_rows ?start))) = 3"
    by (simp add: w MAX_RETRIES_def)
  have a: "map run_status (etl_runs_table (db (snd (ingest_with_engine ?e
        ''annex.xlsx'' sample_rows ''c0ffee'' ?w)))) = [''success'']
     \<and> map checksum (etl_runs_table (db (snd (ingest_with_engine ?e
        ''annex.xlsx'' sample_rows ''c0ffee'' ?w)))) = [''c0ffee'']"
    using run_record_postcondition [of ?w ?e "''annex.xlsx''" sample_rows "''c0ffee''"] r
    by (simp add: Let_def e w)
  have b: "etl_runs_table (db (snd (ingest_with_engine ?d
        ''annex.xlsx'' sample_rows ''c0ffee'' ?w))) = []
     \<and> txn_count (snd (ingest_with_engine ?d ''annex.xlsx'' sample_rows ''c0ffee'' ?w)) = 4"
    using run_record_postcondition [of ?w ?d "''annex.xlsx''" sample_rows "''c0ffee''"] x
    by (simp add: Let_def e w)
  from a b show ?thesis by (simp add: e)
qed

subsection \<open>Scope enforcement\<close>





















subsection \<open>Row-level coercion failures\<close>













end
